theory Spec2Isabelle
  imports Main "HOL-Library.Signed_Division"
begin

section \<open>Go integers\<close>

text \<open>
  The program is built for amd64 and arm64, where Go's \<^verbatim>\<open>int\<close> has 64 bits: a value is an
  integer from \<open>- 2^63\<close> to \<open>2^63 - 1\<close>, and \<^verbatim>\<open>+\<close>, \<^verbatim>\<open>-\<close> and \<^verbatim>\<open>*\<close> wrap around modulo
  \<open>2^64\<close>. Go's \<^verbatim>\<open>int\<close> is modelled as \<^typ>\<open>int\<close> with the wrap-around written out:
  \<open>wrap64\<close> is applied to every sum, difference and product the code computes, once for a
  whole expression of these three operations, which gives the value that wrapping after
  each operation gives (\<open>wrap64_add_left\<close> and the lemmas after it).

  Go's \<^verbatim>\<open>/\<close> and \<^verbatim>\<open>%\<close> on integers truncate towards zero. They are \<open>sdiv\<close> and \<open>smod\<close>
  here; all divisors of the code are positive constants, so a quotient never leaves the
  range of its dividend. \<open>div\<close> and \<open>mod\<close> (which round towards minus infinity) are used
  only for the mathematical floor of reference formulas and for the standard library's
  own results.
\<close>

definition wrap64 :: "int \<Rightarrow> int" where
  "wrap64 x = (x + 2 ^ 63) mod 2 ^ 64 - 2 ^ 63"

section \<open>The calendar arithmetic of the package \<^verbatim>\<open>output\<close>\<close>

text \<open>\<^verbatim>\<open>func ordinalSuffix(day int) string\<close>\<close>

definition ordinalSuffix :: "int \<Rightarrow> string" where
  "ordinalSuffix day =
     (if day smod 100 = 11 \<or> day smod 100 = 12 \<or> day smod 100 = 13 then ''th''
      else if day smod 10 = 1 then ''st''
      else if day smod 10 = 2 then ''nd''
      else if day smod 10 = 3 then ''rd''
      else ''th'')"

text \<open>\<^verbatim>\<open>func monthName(m int) string\<close>\<close>

definition monthName :: "int \<Rightarrow> string" where
  "monthName m =
     (if m = 1 then ''January'' else if m = 2 then ''February''
      else if m = 3 then ''March'' else if m = 4 then ''April''
      else if m = 5 then ''May'' else if m = 6 then ''June''
      else if m = 7 then ''July'' else if m = 8 then ''August''
      else if m = 9 then ''September'' else if m = 10 then ''October''
      else if m = 11 then ''November'' else if m = 12 then ''December''
      else '''')"

text \<open>\<^verbatim>\<open>func gregorianToJDN(y, m, d int) int\<close>\<close>

definition gregorianToJDN :: "int \<Rightarrow> int \<Rightarrow> int \<Rightarrow> int" where
  "gregorianToJDN y m d =
     (let a = wrap64 (14 - m) sdiv 12;
          y2 = wrap64 (y + 4800 - a);
          m2 = wrap64 (m + 12 * a - 3);
          jdn = wrap64 (d + wrap64 (153 * m2 + 2) sdiv 5 + 365 * y2 + y2 sdiv 4 - y2 sdiv 100
                  + y2 sdiv 400 - 32045)
      in jdn)"

text \<open>\<^verbatim>\<open>func jdnToJulian(jdn int) (year, month, day int)\<close>\<close>

definition jdnToJulian :: "int \<Rightarrow> int \<times> int \<times> int" where
  "jdnToJulian jdn =
     (let c = wrap64 (jdn + 32082);
          d = wrap64 (4 * c + 3) sdiv 1461;
          e = wrap64 (c - wrap64 (1461 * d) sdiv 4);
          m = wrap64 (5 * e + 2) sdiv 153;
          day = wrap64 (e - wrap64 (153 * m + 2) sdiv 5 + 1);
          month = wrap64 (m + 3 - 12 * (m sdiv 10));
          year = wrap64 (d - 4800 + m sdiv 10)
      in (year, month, day))"

text \<open>\<^verbatim>\<open>func julianFromGregorian(y, m, d int) (jy, jm, jd int)\<close>\<close>

definition julianFromGregorian :: "int \<Rightarrow> int \<Rightarrow> int \<Rightarrow> int \<times> int \<times> int" where
  "julianFromGregorian y m d = (let jdn = gregorianToJDN y m d in jdnToJulian jdn)"

text \<open>\<^verbatim>\<open>func afterOrEqual(y, m, d, y2, m2, d2 int) bool\<close>\<close>

definition afterOrEqual :: "int \<Rightarrow> int \<Rightarrow> int \<Rightarrow> int \<Rightarrow> int \<Rightarrow> int \<Rightarrow> bool" where
  "afterOrEqual y m d y2 m2 d2 =
     (if y \<noteq> y2 then y > y2
      else if m \<noteq> m2 then m > m2
      else d \<ge> d2)"

text \<open>
  The local struct \<^verbatim>\<open>eraDef\<close> of \<^verbatim>\<open>japaneseEra\<close> and its table \<^verbatim>\<open>eras\<close>. The fields
  \<^verbatim>\<open>y\<close>, \<^verbatim>\<open>m\<close>, \<^verbatim>\<open>d\<close> of the struct are \<open>ey\<close>, \<open>em\<close>, \<open>ed\<close> here.
\<close>

record eraDef =
  name :: string
  ey :: int
  em :: int
  ed :: int

definition eras :: "eraDef list" where
  "eras =
     [\<lparr>name = ''Reiwa'', ey = 2019, em = 5, ed = 1\<rparr>,
      \<lparr>name = ''Heisei'', ey = 1989, em = 1, ed = 8\<rparr>,
      \<lparr>name = ''Showa'', ey = 1926, em = 12, ed = 25\<rparr>,
      \<lparr>name = ''Taisho'', ey = 1912, em = 7, ed = 30\<rparr>,
      \<lparr>name = ''Meiji'', ey = 1868, em = 10, ed = 23\<rparr>]"

text \<open>
  The loop \<^verbatim>\<open>for _, e := range eras\<close> of \<^verbatim>\<open>japaneseEra\<close>: it returns at the first entry
  the date is after or equal to, and falls through to \<^verbatim>\<open>"Pre-Meiji", y\<close>. The
  subtraction \<^verbatim>\<open>y - e.y + 1\<close> is reached only when \<open>y\<close> is at least the first year of the
  era, so it stays between 1 and \<open>y\<close> and cannot wrap around (\<open>eraYear_in_range\<close>).
\<close>

fun eraScan :: "eraDef list \<Rightarrow> int \<Rightarrow> int \<Rightarrow> int \<Rightarrow> string \<times> int" where
  "eraScan [] y m d = (''Pre-Meiji'', y)"
| "eraScan (e # es) y m d =
     (if afterOrEqual y m d (ey e) (em e) (ed e)
      then (let year = y - ey e + 1 in (name e, year))
      else eraScan es y m d)"

definition japaneseEra :: "int \<Rightarrow> int \<Rightarrow> int \<Rightarrow> string \<times> int" where
  "japaneseEra y m d = eraScan eras y m d"

text \<open>
  \<^verbatim>\<open>func islamicCivilFromGregorian(y, m, d int) (iy, im, id int)\<close>. The variables \<^verbatim>\<open>l\<close>
  and \<^verbatim>\<open>j\<close> are reassigned as in the source; the result \<^verbatim>\<open>id\<close> is \<open>id1\<close> here.
\<close>

definition islamicCivilFromGregorian :: "int \<Rightarrow> int \<Rightarrow> int \<Rightarrow> int \<times> int \<times> int" where
  "islamicCivilFromGregorian y m d =
     (let jdn = gregorianToJDN y m d;
          l = wrap64 (jdn - 1948440 + 10632);
          n = wrap64 (l - 1) sdiv 10631;
          l = wrap64 (l - 10631 * n + 354);
          j = wrap64 ((wrap64 (10985 - l) sdiv 5316) * (wrap64 (50 * l) sdiv 17719));
          j = wrap64 (j + (l sdiv 5670) * (wrap64 (43 * l) sdiv 15238));
          l = wrap64 (l - (wrap64 (30 - j) sdiv 15) * (wrap64 (17719 * j) sdiv 50)
                - (j sdiv 16) * (wrap64 (15238 * j) sdiv 43) + 29);
          im = wrap64 (24 * l) sdiv 709;
          id1 = wrap64 (l - wrap64 (709 * im) sdiv 24);
          iy = wrap64 (30 * n + j - 30)
      in (iy, im, id1))"

text \<open>\<^verbatim>\<open>func islamicMonthName(m int) string\<close>\<close>

definition islamicMonthName :: "int \<Rightarrow> string" where
  "islamicMonthName m =
     (if m = 1 then ''Muharram'' else if m = 2 then ''Safar''
      else if m = 3 then ''Rabi'' @ [CHR 0x27] @ '' al-awwal''
      else if m = 4 then ''Rabi'' @ [CHR 0x27] @ '' al-thani''
      else if m = 5 then ''Jumada al-awwal'' else if m = 6 then ''Jumada al-thani''
      else if m = 7 then ''Rajab''
      else if m = 8 then ''Sha'' @ [CHR 0x27] @ ''ban''
      else if m = 9 then ''Ramadan'' else if m = 10 then ''Shawwal''
      else if m = 11 then ''Dhu al-Qi'' @ [CHR 0x27] @ ''dah''
      else if m = 12 then ''Dhu al-Hijjah''
      else '''')"

text \<open>\<^verbatim>\<open>func hebrewYearApprox(gy, gm, gd int) int\<close>\<close>

definition hebrewYearApprox :: "int \<Rightarrow> int \<Rightarrow> int \<Rightarrow> int" where
  "hebrewYearApprox gy gm gd =
     (if gm > 9 then wrap64 (gy + 3761)
      else if gm < 9 then wrap64 (gy + 3760)
      else if gd \<ge> 20 then wrap64 (gy + 3761)
      else wrap64 (gy + 3760))"

section \<open>The standard library the package calls\<close>

text \<open>
  The functions of Go's packages \<^verbatim>\<open>time\<close> and \<^verbatim>\<open>fmt\<close> that the code calls. A \<^verbatim>\<open>time.Time\<close>
  is an instant with a location; the record holds what its accessor methods return in
  that location. The date of a time value is always calendar-valid.
\<close>

record Time =
  Year :: int
  Month :: int
  Day :: int
  Hour :: int
  Minute :: int
  Second :: int
  Nanosecond :: int
  ZoneOffset :: int

definition isLeap :: "int \<Rightarrow> bool" where
  "isLeap y = (y mod 4 = 0 \<and> (y mod 100 \<noteq> 0 \<or> y mod 400 = 0))"

definition daysIn :: "int \<Rightarrow> int \<Rightarrow> int" where
  "daysIn y m =
     (if m = 2 then (if isLeap y then 29 else 28)
      else if m = 4 \<or> m = 6 \<or> m = 9 \<or> m = 11 then 30
      else 31)"

definition daysInYear :: "int \<Rightarrow> int" where
  "daysInYear y = (if isLeap y then 366 else 365)"

text \<open>
  The Julian Day Number of a proleptic-Gregorian date, every division being the
  mathematical floor: the reference formula of the specification.
\<close>

definition jdnReference :: "int \<Rightarrow> int \<Rightarrow> int \<Rightarrow> int" where
  "jdnReference y m d =
     (let a = (14 - m) div 12;
          y2 = y + 4800 - a;
          m2 = m + 12 * a - 3
      in d + (153 * m2 + 2) div 5 + 365 * y2 + y2 div 4 - y2 div 100 + y2 div 400 - 32045)"

text \<open>\<^verbatim>\<open>t.Weekday()\<close>: Sunday is 0. Julian Day Number 0 was a Monday.\<close>

definition Weekday :: "Time \<Rightarrow> int" where
  "Weekday t = (jdnReference (Year t) (Month t) (Day t) + 1) mod 7"

definition longDayNames :: "string list" where
  "longDayNames =
     [''Sunday'', ''Monday'', ''Tuesday'', ''Wednesday'', ''Thursday'', ''Friday'', ''Saturday'']"

definition longMonthNames :: "string list" where
  "longMonthNames =
     [''January'', ''February'', ''March'', ''April'', ''May'', ''June'', ''July'',
      ''August'', ''September'', ''October'', ''November'', ''December'']"

text \<open>Decimal digits, as \<^verbatim>\<open>%d\<close> prints them.\<close>

fun natDigits :: "nat \<Rightarrow> string" where
  "natDigits n =
     (if n < 10 then [''0123456789'' ! n]
      else natDigits (n div 10) @ [''0123456789'' ! (n mod 10)])"

declare natDigits.simps [simp del]

definition itoa :: "int \<Rightarrow> string" where
  "itoa x = (if x < 0 then ''-'' @ natDigits (nat (- x)) else natDigits (nat x))"

definition zeroPad :: "nat \<Rightarrow> string \<Rightarrow> string" where
  "zeroPad w s = replicate (w - length s) (CHR ''0'') @ s"

text \<open>\<^verbatim>\<open>fmt.Sprintf("%0wd", x)\<close>: the sign counts in the width.\<close>

definition sprintf0d :: "nat \<Rightarrow> int \<Rightarrow> string" where
  "sprintf0d w x =
     (if x < 0 then ''-'' @ zeroPad (w - 1) (natDigits (nat (- x)))
      else zeroPad w (natDigits (nat x)))"

text \<open>\<^verbatim>\<open>appendInt\<close> of package \<^verbatim>\<open>time\<close>: the sign does not count in the width.\<close>

definition appendInt :: "int \<Rightarrow> nat \<Rightarrow> string" where
  "appendInt x w =
     (if x < 0 then ''-'' @ zeroPad w (natDigits (nat (- x)))
      else zeroPad w (natDigits (nat x)))"

text \<open>\<^verbatim>\<open>Weekday.String()\<close> and \<^verbatim>\<open>Month.String()\<close>.\<close>

definition WeekdayString :: "int \<Rightarrow> string" where
  "WeekdayString d =
     (if 0 \<le> d \<and> d \<le> 6 then longDayNames ! nat d
      else ''%!Weekday('' @ itoa d @ '')'')"

definition MonthString :: "int \<Rightarrow> string" where
  "MonthString m =
     (if 1 \<le> m \<and> m \<le> 12 then longMonthNames ! nat (m - 1)
      else ''%!Month('' @ itoa m @ '')'')"

text \<open>UTC midnight of a date, as a time value.\<close>

definition midnightUTC :: "int \<Rightarrow> int \<Rightarrow> int \<Rightarrow> Time" where
  "midnightUTC y m d =
     \<lparr>Year = y, Month = m, Day = d, Hour = 0, Minute = 0, Second = 0, Nanosecond = 0,
      ZoneOffset = 0\<rparr>"

text \<open>
  \<^verbatim>\<open>time.Date(y, m, d, 0, 0, 0, 0, time.UTC)\<close> is not modelled: it is the parameter
  \<open>dateUTC\<close> of \<open>FormatRequestDate\<close> below. (The library normalises arguments that are
  out of range and wraps around beyond the years a time value can hold; for a
  calendar-valid date of a year from -292277022399 to 292277022399 it returns
  \<open>midnightUTC y m d\<close>.)
\<close>

text \<open>
  \<^verbatim>\<open>t.Unix()\<close>: seconds since 1970-01-01T00:00:00Z, whose Julian Day Number is 2440588,
  as an \<^verbatim>\<open>int64\<close>.
\<close>

definition Unix :: "Time \<Rightarrow> int" where
  "Unix t =
     wrap64 ((jdnReference (Year t) (Month t) (Day t) - 2440588) * 86400
       + Hour t * 3600 + Minute t * 60 + Second t - ZoneOffset t)"

text \<open>
  \<^verbatim>\<open>t.ISOWeek()\<close>: the year and the week of the Thursday of the week \<open>t\<close> lies in.
\<close>

definition ISOWeek :: "Time \<Rightarrow> int \<times> int" where
  "ISOWeek t =
     (let y = Year t;
          d = (if 4 - Weekday t = 4 then - 3 else 4 - Weekday t);
          yd = jdnReference y (Month t) (Day t) - jdnReference y 1 1 + d
      in if yd < 0 then (y - 1, (yd + daysInYear (y - 1)) div 7 + 1)
         else if yd \<ge> daysInYear y then (y + 1, (yd - daysInYear y) div 7 + 1)
         else (y, yd div 7 + 1))"

text \<open>\<^verbatim>\<open>t.Format("2006-01-02")\<close> and \<^verbatim>\<open>t.Format(time.RFC3339)\<close>.\<close>

definition FormatISODate :: "Time \<Rightarrow> string" where
  "FormatISODate t =
     appendInt (Year t) 4 @ ''-'' @ appendInt (Month t) 2 @ ''-'' @ appendInt (Day t) 2"

definition FormatZone :: "int \<Rightarrow> string" where
  "FormatZone off =
     (if off = 0 then ''Z''
      else (let zone = off sdiv 60
            in (if zone < 0 then ''-'' else ''+'')
               @ appendInt (\<bar>zone\<bar> sdiv 60) 2 @ '':'' @ appendInt (\<bar>zone\<bar> smod 60) 2))"

definition FormatRFC3339 :: "Time \<Rightarrow> string" where
  "FormatRFC3339 t =
     FormatISODate t @ ''T'' @ appendInt (Hour t) 2 @ '':'' @ appendInt (Minute t) 2
       @ '':'' @ appendInt (Second t) 2 @ FormatZone (ZoneOffset t)"

section \<open>The request date of a response\<close>

text \<open>
  \<^verbatim>\<open>time.Parse\<close> for the two layouts \<^verbatim>\<open>parseSOAPResponse\<close> uses, \<^verbatim>\<open>"2006-01-02"\<close> and
  \<^verbatim>\<open>"2006-01-02-07:00"\<close>: a year of four digits, a month and a day of two digits each,
  for the second layout a zone offset \<^verbatim>\<open>+hh:mm\<close> or \<^verbatim>\<open>-hh:mm\<close>, and nothing after them. The
  month is checked when it is read, the day against the month and year at the end.
\<close>

datatype ParseFailure =
  BadValue | MonthOutOfRange | DayOutOfRange | ZoneHourOutOfRange | ZoneMinuteOutOfRange
  | ExtraText

definition isDigit :: "string \<Rightarrow> nat \<Rightarrow> bool" where
  "isDigit s i =
     (i < length s \<and> 48 \<le> (of_char (s ! i) :: nat) \<and> (of_char (s ! i) :: nat) \<le> 57)"

definition digitVal :: "char \<Rightarrow> int" where
  "digitVal c = int (of_char c) - 48"

definition getnum :: "string \<Rightarrow> bool \<Rightarrow> (int \<times> string) option" where
  "getnum s fixed =
     (if \<not> isDigit s 0 then None
      else if \<not> isDigit s 1 then
        (if fixed then None else Some (digitVal (s ! 0), drop 1 s))
      else Some (digitVal (s ! 0) * 10 + digitVal (s ! 1), drop 2 s))"

text \<open>The element \<^verbatim>\<open>2006\<close>: four characters, all digits.\<close>

definition longYear :: "string \<Rightarrow> (int \<times> string) option" where
  "longYear s =
     (if length s < 4 \<or> \<not> isDigit s 0 then None
      else if isDigit s 1 \<and> isDigit s 2 \<and> isDigit s 3 then
        Some (((digitVal (s ! 0) * 10 + digitVal (s ! 1)) * 10 + digitVal (s ! 2)) * 10
                + digitVal (s ! 3), drop 4 s)
      else None)"

text \<open>A literal character of the layout.\<close>

definition skip :: "char \<Rightarrow> string \<Rightarrow> string option" where
  "skip c s = (case s of [] \<Rightarrow> None | x # xs \<Rightarrow> if x = c then Some xs else None)"

text \<open>The part \<^verbatim>\<open>2006-01-02\<close> both layouts begin with: year, month, day and what follows.\<close>

definition scanDate :: "string \<Rightarrow> ParseFailure + (int \<times> int \<times> int \<times> string)" where
  "scanDate s =
     (case longYear s of None \<Rightarrow> Inl BadValue | Some (year, v1) \<Rightarrow>
      case skip (CHR ''-'') v1 of None \<Rightarrow> Inl BadValue | Some v2 \<Rightarrow>
      case getnum v2 True of None \<Rightarrow> Inl BadValue | Some (month, v3) \<Rightarrow>
      if month \<le> 0 \<or> 12 < month then Inl MonthOutOfRange
      else
      case skip (CHR ''-'') v3 of None \<Rightarrow> Inl BadValue | Some v4 \<Rightarrow>
      case getnum v4 True of None \<Rightarrow> Inl BadValue | Some (day, v5) \<Rightarrow>
      Inr (year, month, day, v5))"

text \<open>The element \<^verbatim>\<open>-07:00\<close>: the offset in seconds and what follows.\<close>

definition numColonTZ :: "string \<Rightarrow> ParseFailure + (int \<times> string)" where
  "numColonTZ v =
     (if length v < 6 then Inl BadValue
      else if v ! 3 \<noteq> CHR '':'' then Inl BadValue
      else
        (let sign = v ! 0;
             hr = getnum (take 2 (drop 1 v)) True;
             mm = (if hr = None then None else getnum (take 2 (drop 4 v)) True);
             hrv = (case hr of None \<Rightarrow> 0 | Some (h, _) \<Rightarrow> h);
             mmv = (case mm of None \<Rightarrow> 0 | Some (m, _) \<Rightarrow> m);
             zoneOffset = (hrv * 60 + mmv) * 60
         in if mmv > 60 then Inl ZoneMinuteOutOfRange
            else if hrv > 24 then Inl ZoneHourOutOfRange
            else if hr = None \<or> mm = None then Inl BadValue
            else if sign = CHR ''+'' then Inr (zoneOffset, drop 6 v)
            else if sign = CHR ''-'' then Inr (- zoneOffset, drop 6 v)
            else Inl BadValue))"

text \<open>\<^verbatim>\<open>time.Parse("2006-01-02", s)\<close>\<close>

definition ParseDate :: "string \<Rightarrow> ParseFailure + Time" where
  "ParseDate s =
     (case scanDate s of Inl e \<Rightarrow> Inl e | Inr (year, month, day, v) \<Rightarrow>
        if v \<noteq> [] then Inl ExtraText
        else if day < 1 \<or> day > daysIn year month then Inl DayOutOfRange
        else Inr (midnightUTC year month day))"

text \<open>\<^verbatim>\<open>time.Parse("2006-01-02-07:00", s)\<close>\<close>

definition ParseDateZone :: "string \<Rightarrow> ParseFailure + Time" where
  "ParseDateZone s =
     (case scanDate s of Inl e \<Rightarrow> Inl e | Inr (year, month, day, v) \<Rightarrow>
      case numColonTZ v of Inl e \<Rightarrow> Inl e | Inr (zoneOffset, v1) \<Rightarrow>
        if v1 \<noteq> [] then Inl ExtraText
        else if day < 1 \<or> day > daysIn year month then Inl DayOutOfRange
        else Inr ((midnightUTC year month day)\<lparr>ZoneOffset := zoneOffset\<rparr>))"

text \<open>The struct \<^verbatim>\<open>ServiceError\<close> and the constant \<^verbatim>\<open>ErrServiceError\<close> of the package \<^verbatim>\<open>vies\<close>.\<close>

record ServiceError =
  Code :: string
  Message :: string
  VATNumber :: string

definition ErrServiceError :: string where
  "ErrServiceError = ''SERVICE_ERROR''"

text \<open>
  The step of \<^verbatim>\<open>parseSOAPResponse\<close> that parses \<^verbatim>\<open>resp.RequestDate\<close>: the first layout, then
  the second, then the error. The text \<^verbatim>\<open>%v\<close> prints for the library's error (of the
  layout, the value and the failure) is the parameter \<open>errorText\<close>.
\<close>

definition parseRequestDate ::
  "(string \<Rightarrow> string \<Rightarrow> ParseFailure \<Rightarrow> string) \<Rightarrow> string \<Rightarrow> ServiceError + Time" where
  "parseRequestDate errorText s =
     (case ParseDate s of Inr requestDate \<Rightarrow> Inr requestDate
      | Inl _ \<Rightarrow>
        (case ParseDateZone s of Inr requestDate \<Rightarrow> Inr requestDate
         | Inl err \<Rightarrow>
           Inl \<lparr>Code = ErrServiceError,
                Message = ''Failed to parse request date '' @ [CHR 0x27] @ s @ [CHR 0x27]
                  @ '': '' @ errorText ''2006-01-02-07:00'' s err,
                VATNumber = []\<rparr>))"

section \<open>Rendering\<close>

text \<open>
  \<^verbatim>\<open>func verboseCalendarSentence(t time.Time) string\<close>. The package-level variable
  \<^verbatim>\<open>calendar\<close>, set once by \<^verbatim>\<open>SetDateOptions\<close>, is the first argument.
\<close>

definition verboseCalendarSentence :: "string \<Rightarrow> Time \<Rightarrow> string" where
  "verboseCalendarSentence calendar t =
     (let weekday = WeekdayString (Weekday t);
          gregMonth = MonthString (Month t);
          day = Day t;
          sfx = ordinalSuffix day;
          y = Year t
      in if calendar = ''gregorian'' then
           ''This request was made on '' @ weekday @ '', '' @ gregMonth @ '' '' @ itoa day
             @ sfx @ '' of the year '' @ itoa y @ '' of the common era.''
         else if calendar = ''buddhist'' then
           (let by = wrap64 (y + 543)
            in ''This request was made on '' @ weekday @ '', '' @ gregMonth @ '' ''
                 @ itoa day @ sfx @ '' of the year '' @ itoa by @ '' of the Buddhist Era.'')
         else if calendar = ''minguo'' then
           (let ry = wrap64 (y - 1911)
            in ''This request was made on '' @ weekday @ '', '' @ gregMonth @ '' ''
                 @ itoa day @ sfx @ '' of the year '' @ itoa ry
                 @ '' of the Minguo calendar.'')
         else if calendar = ''julian'' then
           (case julianFromGregorian y (Month t) day of (jy, jm, jd) \<Rightarrow>
              let jMonth = monthName jm; jsfx = ordinalSuffix jd
              in ''This request was made on '' @ weekday @ '', '' @ jMonth @ '' '' @ itoa jd
                   @ jsfx @ '' of the year '' @ itoa jy @ '' of the Julian calendar.'')
         else if calendar = ''japanese'' then
           (case japaneseEra y (Month t) day of (era, eraYear) \<Rightarrow>
              ''This request was made on '' @ weekday @ '', '' @ gregMonth @ '' ''
                @ itoa day @ sfx @ '' in '' @ era @ '' '' @ itoa eraYear
                @ '' of the Japanese calendar.'')
         else if calendar = ''islamic'' then
           (case islamicCivilFromGregorian y (Month t) day of (iy, im, id1) \<Rightarrow>
              let iMonth = islamicMonthName im; isfx = ordinalSuffix id1
              in ''This request was made on '' @ weekday @ '', '' @ iMonth @ '' '' @ itoa id1
                   @ isfx @ '' in year '' @ itoa iy
                   @ '' AH of the Islamic (Hijri) calendar.'')
         else if calendar = ''hebrew'' then
           (let hy = hebrewYearApprox y (Month t) day
            in ''This request was made on '' @ weekday @ '', '' @ gregMonth @ '' ''
                 @ itoa day @ sfx @ '' in year '' @ itoa hy
                 @ '' AM of the Hebrew calendar (tabular approximation).'')
         else
           ''This request was made on '' @ weekday @ '', '' @ gregMonth @ '' '' @ itoa day
             @ sfx @ '' of the year '' @ itoa y @ '' of the common era.'')"

text \<open>
  \<^verbatim>\<open>func FormatRequestDate(t time.Time) string\<close>. The package-level variables
  \<^verbatim>\<open>dateStyle\<close> and \<^verbatim>\<open>calendar\<close> are the second and third argument, the library function
  \<^verbatim>\<open>time.Date\<close>, at UTC midnight, is the first.
\<close>

definition FormatRequestDate ::
  "(int \<Rightarrow> int \<Rightarrow> int \<Rightarrow> Time) \<Rightarrow> string \<Rightarrow> string \<Rightarrow> Time \<Rightarrow> string" where
  "FormatRequestDate dateUTC dateStyle calendar t =
     (if dateStyle = ''iso-date'' then FormatISODate t
      else if dateStyle = ''rfc3339'' then
        (let utc = dateUTC (Year t) (Month t) (Day t) in FormatRFC3339 utc)
      else if dateStyle = ''unix'' then
        (let utc = dateUTC (Year t) (Month t) (Day t) in itoa (Unix utc))
      else if dateStyle = ''iso-week'' then
        (case ISOWeek t of (y, w) \<Rightarrow>
           let isoWeekday = (if Weekday t = 0 then 7 else Weekday t)
           in sprintf0d 4 y @ ''-W'' @ sprintf0d 2 w @ ''-'' @ itoa isoWeekday)
      else verboseCalendarSentence calendar t)"

section \<open>Notions of the specification\<close>

text \<open>
  A calendar date is valid when its month is 1 to 12 and its day exists in that month
  under the proleptic-Gregorian leap rule.
\<close>

definition validDate :: "int \<Rightarrow> int \<Rightarrow> int \<Rightarrow> bool" where
  "validDate y m d = (1 \<le> m \<and> m \<le> 12 \<and> 1 \<le> d \<and> d \<le> daysIn y m)"

text \<open>The date one calendar day later.\<close>

definition nextDay :: "int \<Rightarrow> int \<Rightarrow> int \<Rightarrow> int \<times> int \<times> int" where
  "nextDay y m d =
     (if d < daysIn y m then (y, m, d + 1)
      else if m < 12 then (y, m + 1, 1)
      else (y + 1, 1, 1))"

text \<open>Dates compared year first, then month, then day.\<close>

definition dateLE :: "int \<times> int \<times> int \<Rightarrow> int \<times> int \<times> int \<Rightarrow> bool" where
  "dateLE p q =
     (case p of (y1, m1, d1) \<Rightarrow> case q of (y2, m2, d2) \<Rightarrow>
        y1 < y2 \<or> (y1 = y2 \<and> (m1 < m2 \<or> (m1 = m2 \<and> d1 \<le> d2))))"

definition eraStart :: "eraDef \<Rightarrow> int \<times> int \<times> int" where
  "eraStart e = (ey e, em e, ed e)"

text \<open>
  The reference formula from a date of the Julian calendar to its Julian Day Number
  (the inverse of \<^verbatim>\<open>jdnToJulian\<close>; the program has no such function).
\<close>

definition julianToJDN :: "int \<Rightarrow> int \<Rightarrow> int \<Rightarrow> int" where
  "julianToJDN y m d =
     (let a = (14 - m) div 12;
          y2 = y + 4800 - a;
          m2 = m + 12 * a - 3
      in d + (153 * m2 + 2) div 5 + 365 * y2 + y2 div 4 - 32083)"

text \<open>
  The reference formula from a date of the civil tabular Hijri calendar to its Julian
  Day Number: 354 days a year, 11 leap days in each cycle of 30 years (10631 days),
  months of 30 and 29 days in turn, epoch 1948440.
\<close>

definition islamicToJDN :: "int \<Rightarrow> int \<Rightarrow> int \<Rightarrow> int" where
  "islamicToJDN y m d =
     (11 * y + 3) div 30 + 354 * y + 30 * m - (m - 1) div 2 + d + 1948440 - 385"

text \<open>The style and calendar names the package knows.\<close>

definition supportedStyles :: "string list" where
  "supportedStyles = [''gce-verbose'', ''iso-date'', ''rfc3339'', ''unix'', ''iso-week'']"

definition supportedCalendars :: "string list" where
  "supportedCalendars =
     [''gregorian'', ''julian'', ''buddhist'', ''minguo'', ''japanese'', ''islamic'',
      ''hebrew'']"

text \<open>
  The Julian calendar: every fourth year is a leap year. A date of it is valid when its
  month is 1 to 12 and its day exists in that month.
\<close>

definition julianDaysIn :: "int \<Rightarrow> int \<Rightarrow> int" where
  "julianDaysIn y m =
     (if m = 2 then (if y mod 4 = 0 then 29 else 28)
      else if m = 4 \<or> m = 6 \<or> m = 9 \<or> m = 11 then 30
      else 31)"

definition validJulianDate :: "int \<Rightarrow> int \<Rightarrow> int \<Rightarrow> bool" where
  "validJulianDate y m d = (1 \<le> m \<and> m \<le> 12 \<and> 1 \<le> d \<and> d \<le> julianDaysIn y m)"


section \<open>Auxiliary notions\<close>

text \<open>
  The days before a March-based year, as the reference formula counts them and as
  \<^verbatim>\<open>gregorianToJDN\<close> counts them with truncating divisions; the March-based year of a
  date and the number of its month in that year; and the amount by which truncation
  exceeds the floor.
\<close>

definition yearDaysRef :: "int \<Rightarrow> int" where
  "yearDaysRef z = 365 * z + z div 4 - z div 100 + z div 400"

definition yearDays :: "int \<Rightarrow> int" where
  "yearDays z = 365 * z + z sdiv 4 - z sdiv 100 + z sdiv 400"

definition marchYear :: "int \<Rightarrow> int \<Rightarrow> int" where
  "marchYear y m = (if m \<le> 2 then y + 4799 else y + 4800)"

definition marchMonth :: "int \<Rightarrow> int" where
  "marchMonth m = (if m \<le> 2 then m + 9 else m - 3)"

definition truncExcess :: "int \<Rightarrow> int" where
  "truncExcess z = (if z < 0 \<and> \<not> isLeap z then 1 else 0)"

text \<open>The decimal digit of a number below ten.\<close>

definition digitChar :: "nat \<Rightarrow> char" where
  "digitChar k = ''0123456789'' ! k"

text \<open>
  A time value and an error text used as examples. (The error text of the library also
  quotes the layout and the value.)
\<close>

definition sampleErrorText :: "string \<Rightarrow> string \<Rightarrow> ParseFailure \<Rightarrow> string" where
  "sampleErrorText layout v e =
     (case e of
        BadValue \<Rightarrow> ''cannot parse''
      | MonthOutOfRange \<Rightarrow> ''month out of range''
      | DayOutOfRange \<Rightarrow> ''day out of range''
      | ZoneHourOutOfRange \<Rightarrow> ''time zone offset hour out of range''
      | ZoneMinuteOutOfRange \<Rightarrow> ''time zone offset minute out of range''
      | ExtraText \<Rightarrow> ''extra text'')"

definition sampleTime :: Time where
  "sampleTime = \<lparr>Year = 2025, Month = 9, Day = 9, Hour = 13, Minute = 5, Second = 7,
                  Nanosecond = 0, ZoneOffset = 7200\<rparr>"

text \<open>
  Two stages of \<^verbatim>\<open>islamicCivilFromGregorian\<close>, named: the year within the cycle of 30
  years, from the day count \<open>l\<close> within the cycle, and the day count within that year.
\<close>

definition hijriYear :: "int \<Rightarrow> int" where
  "hijriYear l =
     wrap64 (wrap64 ((wrap64 (10985 - l) sdiv 5316) * (wrap64 (50 * l) sdiv 17719))
       + (l sdiv 5670) * (wrap64 (43 * l) sdiv 15238))"

definition hijriDays :: "int \<Rightarrow> int \<Rightarrow> int" where
  "hijriDays l j =
     wrap64 (l - (wrap64 (30 - j) sdiv 15) * (wrap64 (17719 * j) sdiv 50)
       - (j sdiv 16) * (wrap64 (15238 * j) sdiv 43) + 29)"

section \<open>Wrap-around\<close>

lemma wrap64_id:
  "- 9223372036854775808 \<le> x \<Longrightarrow> x < 9223372036854775808 \<Longrightarrow> wrap64 x = x"
  by (simp add: wrap64_def)

lemma wrap64_range: "- 9223372036854775808 \<le> wrap64 x" "wrap64 x < 9223372036854775808"
  by (simp_all add: wrap64_def)

lemma wrap64_add_left: "wrap64 (wrap64 a + b) = wrap64 (a + b)"
  by (simp add: wrap64_def mod_simps algebra_simps)

lemma wrap64_add_right: "wrap64 (a + wrap64 b) = wrap64 (a + b)"
  by (simp add: wrap64_def mod_simps algebra_simps)

lemma wrap64_diff_left: "wrap64 (wrap64 a - b) = wrap64 (a - b)"
  by (simp add: wrap64_def mod_simps algebra_simps)

lemma wrap64_diff_right: "wrap64 (a - wrap64 b) = wrap64 (a - b)"
  by (simp add: wrap64_def mod_simps algebra_simps)

lemma wrap64_mult_left: "wrap64 (wrap64 a * b) = wrap64 (a * b)"
proof -
  have "(((a + 2 ^ 63) mod 2 ^ 64 - 2 ^ 63) * b + 2 ^ 63) mod 2 ^ 64
          = ((a + 2 ^ 63 - 2 ^ 63) * b + 2 ^ 63) mod (2 ^ 64 :: int)"
    by (intro mod_add_cong mod_mult_cong mod_diff_cong) simp_all
  then show ?thesis by (simp add: wrap64_def)
qed

lemma wrap64_mult_right: "wrap64 (a * wrap64 b) = wrap64 (a * b)"
  using wrap64_mult_left [of b a] by (simp add: mult.commute)

section \<open>Truncating and floor division\<close>

lemma sdiv_nonneg: "0 \<le> a \<Longrightarrow> 0 < b \<Longrightarrow> a sdiv b = a div (b::int)"
  by (simp add: signed_divide_int_def sgn_if)

lemma smod_nonneg: "0 \<le> a \<Longrightarrow> 0 < b \<Longrightarrow> a smod b = a mod (b::int)"
  by (simp add: signed_modulo_int_def sgn_if)

lemma sdiv_neg: "a < 0 \<Longrightarrow> 0 < b \<Longrightarrow> a sdiv b = - ((- a) div (b::int))"
  by (simp add: signed_divide_int_def sgn_if)

lemma div_step:
  fixes y b :: int
  assumes "0 < b"
  shows "(y + 1) div b = y div b + (if (y + 1) mod b = 0 then 1 else 0)"
proof -
  define q where "q = y div b"
  define r where "r = y mod b"
  have y: "y = b * q + r" and r: "0 \<le> r" "r < b"
    using assms by (simp_all add: q_def r_def)
  show ?thesis
  proof (cases "r + 1 = b")
    case True
    then have e: "y + 1 = b * (q + 1) + 0" using y by (simp add: algebra_simps)
    have "(y + 1) div b = q + 1" "(y + 1) mod b = 0"
      using int_div_pos_eq [OF e] int_mod_pos_eq [OF e] assms by simp_all
    then show ?thesis by (simp add: q_def)
  next
    case False
    then have e: "y + 1 = b * q + (r + 1)" and r1: "0 \<le> r + 1" "r + 1 < b"
      using y r by simp_all
    have "(y + 1) div b = q" "(y + 1) mod b = r + 1"
      using int_div_pos_eq [OF e r1] int_mod_pos_eq [OF e r1] by simp_all
    then show ?thesis using r by (simp add: q_def)
  qed
qed

lemma sdiv_floor:
  fixes a b :: int
  assumes "0 < b"
  shows "a sdiv b = (if 0 \<le> a \<or> a mod b = 0 then a div b else a div b + 1)"
proof (cases "0 \<le> a")
  case True
  then show ?thesis using assms by (simp add: sdiv_nonneg)
next
  case False
  then have "a sdiv b = - ((- a) div b)" using assms by (simp add: sdiv_neg)
  also have "\<dots> = (if a mod b = 0 then a div b else a div b + 1)"
    using assms by (simp add: zdiv_zminus1_eq_if)
  finally show ?thesis using False by simp
qed

lemma mod_100_4: "(x::int) mod 100 = 0 \<Longrightarrow> x mod 4 = 0"
  by (simp add: mod_eq_0_iff_dvd) (rule dvd_trans [of 4 100], simp_all)

lemma mod_400_100: "(x::int) mod 400 = 0 \<Longrightarrow> x mod 100 = 0"
  by (simp add: mod_eq_0_iff_dvd) (rule dvd_trans [of 100 400], simp_all)

lemma isLeap_shift: "isLeap (y + 4800) = isLeap y"
proof -
  have "(y + 4800) mod 4 = y mod 4" using mod_mult_self2 [of y 4 1200] by simp
  moreover have "(y + 4800) mod 100 = y mod 100" using mod_mult_self2 [of y 100 48] by simp
  moreover have "(y + 4800) mod 400 = y mod 400" using mod_mult_self2 [of y 400 12] by simp
  ultimately show ?thesis by (simp add: isLeap_def)
qed

lemma month_cases:
  fixes m :: int
  assumes "1 \<le> m" "m \<le> 12"
  shows "m = 1 \<or> m = 2 \<or> m = 3 \<or> m = 4 \<or> m = 5 \<or> m = 6 \<or> m = 7 \<or> m = 8 \<or> m = 9
           \<or> m = 10 \<or> m = 11 \<or> m = 12"
  using assms by arith

lemma div_bounds:
  fixes a b :: int
  assumes "0 < b"
  shows "b * (a div b) \<le> a" and "a < b * (a div b) + b"
  using mult_div_mod_eq [of b a] pos_mod_bound [OF assms, of a] pos_mod_sign [OF assms, of a]
  by linarith+

lemma quarter_days: "(1461 * z) div 4 = 365 * z + z div (4::int)"
proof -
  define q r where "q = z div 4" and "r = z mod 4"
  have "z = 4 * q + r" by (simp add: q_def r_def)
  then have "1461 * z = 4 * (365 * z + q) + r" by simp
  moreover have "0 \<le> r" "r < 4" by (simp_all add: r_def)
  ultimately have "(1461 * z) div 4 = 365 * z + q" by (rule int_div_pos_eq)
  then show ?thesis by (simp add: q_def)
qed

section \<open>Julian Day Numbers of Gregorian dates\<close>

lemma month_shift:
  fixes m :: int
  assumes "1 \<le> m" "m \<le> 12"
  shows "(14 - m) div 12 = (if m \<le> 2 then 1 else 0)"
proof (cases "m \<le> 2")
  case True
  have "14 - m = 12 * 1 + (2 - m)" by simp
  from int_div_pos_eq [OF this] True assms show ?thesis by simp
next
  case False
  have "14 - m = 12 * 0 + (14 - m)" by simp
  from int_div_pos_eq [OF this] False assms show ?thesis by simp
qed

lemma jdnReference_months:
  assumes "1 \<le> m" "m \<le> 12"
  shows "jdnReference y m d =
           d + (153 * marchMonth m + 2) div 5 + yearDaysRef (marchYear y m) - 32045"
proof (cases "m \<le> 2")
  case True
  have "y + 4800 - 1 = y + 4799" "m + 12 * 1 - 3 = m + 9" by simp_all
  then show ?thesis
    unfolding jdnReference_def Let_def month_shift [OF assms] yearDaysRef_def marchYear_def
      marchMonth_def
    using True by (simp add: add.commute)
next
  case False
  then show ?thesis
    unfolding jdnReference_def Let_def month_shift [OF assms] yearDaysRef_def marchYear_def
      marchMonth_def
    by simp
qed

lemma yearDaysRef_step:
  "yearDaysRef (z + 1) = yearDaysRef z + (if isLeap (z + 1) then 366 else 365)"
proof -
  define q4 q100 q400 where "q4 = z div 4" and "q100 = z div 100" and "q400 = z div 400"
  define c4 c100 c400 where "c4 \<longleftrightarrow> (z + 1) mod 4 = 0" and "c100 \<longleftrightarrow> (z + 1) mod 100 = 0"
    and "c400 \<longleftrightarrow> (z + 1) mod 400 = 0"
  have d4: "(z + 1) div 4 = q4 + (if c4 then 1 else 0)"
    unfolding q4_def c4_def by (rule div_step) simp
  have d100: "(z + 1) div 100 = q100 + (if c100 then 1 else 0)"
    unfolding q100_def c100_def by (rule div_step) simp
  have d400: "(z + 1) div 400 = q400 + (if c400 then 1 else 0)"
    unfolding q400_def c400_def by (rule div_step) simp
  have i: "c100 \<Longrightarrow> c4" "c400 \<Longrightarrow> c100"
    unfolding c4_def c100_def c400_def by (rule mod_100_4, assumption) (rule mod_400_100, assumption)
  have L: "isLeap (z + 1) \<longleftrightarrow> c4 \<and> (\<not> c100 \<or> c400)"
    unfolding isLeap_def c4_def c100_def c400_def by simp
  have "yearDaysRef (z + 1) = 365 * (z + 1) + (q4 + (if c4 then 1 else 0))
          - (q100 + (if c100 then 1 else 0)) + (q400 + (if c400 then 1 else 0))"
    unfolding yearDaysRef_def d4 d100 d400 ..
  moreover have "yearDaysRef z = 365 * z + q4 - q100 + q400"
    unfolding yearDaysRef_def q4_def q100_def q400_def ..
  ultimately show ?thesis
    unfolding L using i by (cases c4; cases c100; cases c400; simp)
qed

lemma gregorianToJDN_months:
  assumes "1 \<le> m" "m \<le> 12"
    and "- 4611686018427387904 \<le> y" "y \<le> 4611686018427387904"
  shows "gregorianToJDN y m d =
           wrap64 (d + (153 * marchMonth m + 2) div 5 + yearDays (marchYear y m) - 32045)"
proof -
  have w1: "wrap64 (14 - m) = 14 - m" using assms by (intro wrap64_id) simp_all
  have a: "wrap64 (14 - m) sdiv 12 = (if m \<le> 2 then 1 else 0)"
    using assms month_shift [OF assms(1,2)] by (simp add: w1 sdiv_nonneg)
  have w2: "wrap64 (y + 4800 - (if m \<le> 2 then 1 else 0)) = marchYear y m"
    using assms by (subst wrap64_id) (simp_all add: marchYear_def)
  have w3: "wrap64 (m + 12 * (if m \<le> 2 then 1 else 0) - 3) = marchMonth m"
    using assms by (subst wrap64_id) (simp_all add: marchMonth_def)
  have k: "0 \<le> marchMonth m" "marchMonth m \<le> 11" using assms by (simp_all add: marchMonth_def)
  have w4: "wrap64 (153 * marchMonth m + 2) = 153 * marchMonth m + 2"
    using k by (intro wrap64_id) simp_all
  have q: "(153 * marchMonth m + 2) sdiv 5 = (153 * marchMonth m + 2) div 5"
    using k by (intro sdiv_nonneg) simp_all
  have "gregorianToJDN y m d =
          wrap64 (d + (153 * marchMonth m + 2) div 5 + 365 * marchYear y m
            + marchYear y m sdiv 4 - marchYear y m sdiv 100 + marchYear y m sdiv 400 - 32045)"
    unfolding gregorianToJDN_def Let_def a w2 w3 w4 q ..
  also have "d + (153 * marchMonth m + 2) div 5 + 365 * marchYear y m
            + marchYear y m sdiv 4 - marchYear y m sdiv 100 + marchYear y m sdiv 400 - 32045
          = d + (153 * marchMonth m + 2) div 5 + yearDays (marchYear y m) - 32045"
    unfolding yearDays_def by linarith
  finally show ?thesis .
qed

lemma yearDays_excess: "yearDays z = yearDaysRef z + truncExcess z"
proof -
  define q4 q100 q400 where "q4 = z div 4" and "q100 = z div 100" and "q400 = z div 400"
  define c4 c100 c400 where "c4 \<longleftrightarrow> z mod 4 = 0" and "c100 \<longleftrightarrow> z mod 100 = 0"
    and "c400 \<longleftrightarrow> z mod 400 = 0"
  have s4: "z sdiv 4 = (if 0 \<le> z \<or> c4 then q4 else q4 + 1)"
    unfolding q4_def c4_def by (rule sdiv_floor) simp
  have s100: "z sdiv 100 = (if 0 \<le> z \<or> c100 then q100 else q100 + 1)"
    unfolding q100_def c100_def by (rule sdiv_floor) simp
  have s400: "z sdiv 400 = (if 0 \<le> z \<or> c400 then q400 else q400 + 1)"
    unfolding q400_def c400_def by (rule sdiv_floor) simp
  have i: "c100 \<Longrightarrow> c4" "c400 \<Longrightarrow> c100"
    unfolding c4_def c100_def c400_def by (rule mod_100_4, assumption) (rule mod_400_100, assumption)
  have L: "isLeap z \<longleftrightarrow> c4 \<and> (\<not> c100 \<or> c400)"
    unfolding isLeap_def c4_def c100_def c400_def by simp
  have "yearDays z = 365 * z + (if 0 \<le> z \<or> c4 then q4 else q4 + 1)
          - (if 0 \<le> z \<or> c100 then q100 else q100 + 1)
          + (if 0 \<le> z \<or> c400 then q400 else q400 + 1)"
    unfolding yearDays_def s4 s100 s400 ..
  moreover have "yearDaysRef z = 365 * z + q4 - q100 + q400"
    unfolding yearDaysRef_def q4_def q100_def q400_def ..
  ultimately show ?thesis
    unfolding truncExcess_def L using i
    by (cases "0 \<le> z"; cases c4; cases c100; cases c400; simp)
qed

lemma gregorianToJDN_excess:
  assumes "1 \<le> m" "m \<le> 12"
    and "- 4611686018427387904 \<le> y" "y \<le> 4611686018427387904"
    and "- 9223372036854775808 \<le> jdnReference y m d + truncExcess (marchYear y m)"
    and "jdnReference y m d + truncExcess (marchYear y m) < 9223372036854775808"
  shows "gregorianToJDN y m d = jdnReference y m d + truncExcess (marchYear y m)"
proof -
  have "d + (153 * marchMonth m + 2) div 5 + yearDays (marchYear y m) - 32045
          = jdnReference y m d + truncExcess (marchYear y m)"
    by (simp add: jdnReference_months [OF assms(1,2)] yearDays_excess)
  then show ?thesis
    using wrap64_id [OF assms(5,6)] by (simp add: gregorianToJDN_months [OF assms(1-4)])
qed

lemma jdnReference_nextDay:
  assumes "validDate y m d"
  shows "(case nextDay y m d of (y', m', d') \<Rightarrow> jdnReference y' m' d') = jdnReference y m d + 1"
proof (cases "d < daysIn y m")
  case True
  then show ?thesis by (simp add: nextDay_def jdnReference_def Let_def)
next
  case False
  with assms have d: "d = daysIn y m" and m: "1 \<le> m" "m \<le> 12"
    by (simp_all add: validDate_def)
  have feb: "yearDaysRef (y + 4800) = yearDaysRef (y + 4799) + (if isLeap y then 366 else 365)"
  proof -
    have e: "y + 4799 + 1 = y + 4800" by simp
    show ?thesis using yearDaysRef_step [of "y + 4799"] unfolding e isLeap_shift .
  qed
  have c2: ?thesis if "m = 2"
    using that
    by (simp add: d nextDay_def daysIn_def jdnReference_months marchYear_def marchMonth_def feb)
  have c12: ?thesis if "m = 12"
    using that
    by (simp add: d nextDay_def daysIn_def jdnReference_months marchYear_def marchMonth_def
        add.commute)
  have c: ?thesis if "m = 1 \<or> m = 3 \<or> m = 4 \<or> m = 5 \<or> m = 6 \<or> m = 7 \<or> m = 8 \<or> m = 9
           \<or> m = 10 \<or> m = 11"
    using that
    by (elim disjE)
      (simp_all add: d nextDay_def daysIn_def jdnReference_months marchYear_def marchMonth_def)
  from month_cases [OF m] show ?thesis
    using c c2 c12 by blast
qed

lemma yearDaysRef_mono:
  assumes "z \<le> z'"
  shows "yearDaysRef z + 365 * (z' - z) \<le> yearDaysRef z'"
  using assms
proof (induction z' rule: int_ge_induct)
  case base
  show ?case by simp
next
  case (step i)
  have "yearDaysRef i + 365 \<le> yearDaysRef (i + 1)"
    by (simp add: yearDaysRef_step)
  with step.IH show ?case by (simp add: algebra_simps)
qed

lemma yearDaysRef_strict:
  assumes "z < z'"
  shows "yearDaysRef z + 365 \<le> yearDaysRef z'"
proof -
  define n where "n = z' - z"
  have n: "1 \<le> n" using assms by (simp add: n_def)
  have "z \<le> z'" using assms by simp
  from yearDaysRef_mono [OF this] have "yearDaysRef z + 365 * n \<le> yearDaysRef z'"
    by (simp add: n_def)
  with n show ?thesis by linarith
qed

lemma monthStart_mono:
  fixes k k' :: int
  assumes "k \<le> k'"
  shows "(153 * k + 2) div 5 \<le> (153 * k' + 2) div 5"
  using assms by (intro zdiv_mono1) simp_all

lemma monthStart_next:
  assumes "validDate y m d" and "m \<noteq> 2"
  shows "d + (153 * marchMonth m + 2) div 5 \<le> (153 * (marchMonth m + 1) + 2) div 5"
proof -
  have m: "1 \<le> m" "m \<le> 12" and d: "d \<le> daysIn y m"
    using assms(1) by (simp_all add: validDate_def)
  have c: ?thesis if "m = 1 \<or> m = 3 \<or> m = 4 \<or> m = 5 \<or> m = 6 \<or> m = 7 \<or> m = 8 \<or> m = 9
           \<or> m = 10 \<or> m = 11 \<or> m = 12"
    using that d by (elim disjE) (simp_all add: daysIn_def marchMonth_def)
  from month_cases [OF m] assms(2) c show ?thesis by blast
qed

lemma dayOfMarchYear:
  assumes "validDate y m d"
  shows "1 \<le> d + (153 * marchMonth m + 2) div 5" and "d + (153 * marchMonth m + 2) div 5 \<le> 366"
proof -
  have m: "1 \<le> m" "m \<le> 12" and d: "1 \<le> d" "d \<le> daysIn y m"
    using assms by (simp_all add: validDate_def)
  have k: "0 \<le> marchMonth m" "marchMonth m \<le> 11" using m by (simp_all add: marchMonth_def)
  have "(153 * 0 + 2) div 5 \<le> (153 * marchMonth m + 2) div (5::int)"
    using k(1) by (rule monthStart_mono)
  then show "1 \<le> d + (153 * marchMonth m + 2) div 5" using d by simp
  show "d + (153 * marchMonth m + 2) div 5 \<le> 366"
  proof (cases "m = 2")
    case True
    with d show ?thesis by (simp add: daysIn_def marchMonth_def split: if_splits)
  next
    case False
    from False m have "marchMonth m + 1 \<le> 11" by (simp add: marchMonth_def)
    then have "(153 * (marchMonth m + 1) + 2) div 5 \<le> (153 * 11 + 2) div (5::int)"
      by (rule monthStart_mono)
    with monthStart_next [OF assms False] show ?thesis by simp
  qed
qed

lemma dateLE_march:
  assumes "1 \<le> m" "m \<le> 12" "1 \<le> m'" "m' \<le> 12" and "dateLE (y, m, d) (y', m', d')"
  shows "marchYear y m < marchYear y' m'
         \<or> (marchYear y m = marchYear y' m' \<and> marchMonth m < marchMonth m')
         \<or> (marchYear y m = marchYear y' m' \<and> marchMonth m = marchMonth m' \<and> m = m'
              \<and> d \<le> d')"
  using assms by (auto simp: dateLE_def marchYear_def marchMonth_def)

lemma jdnReference_mono:
  assumes "validDate y m d" and "validDate y' m' d'" and "dateLE (y, m, d) (y', m', d')"
  shows "jdnReference y m d \<le> jdnReference y' m' d'"
proof -
  have m: "1 \<le> m" "m \<le> 12" and m': "1 \<le> m'" "m' \<le> 12" and d': "1 \<le> d'"
    using assms(1,2) by (simp_all add: validDate_def)
  define D where "D = d + (153 * marchMonth m + 2) div 5"
  define D' where "D' = d' + (153 * marchMonth m' + 2) div 5"
  have r: "jdnReference y m d = D + yearDaysRef (marchYear y m) - 32045"
    "jdnReference y' m' d' = D' + yearDaysRef (marchYear y' m') - 32045"
    by (simp_all add: jdnReference_months m m' D_def D'_def)
  have b: "1 \<le> D" "D \<le> 366" "1 \<le> D'" "D' \<le> 366"
    using dayOfMarchYear [OF assms(1)] dayOfMarchYear [OF assms(2)] by (simp_all add: D_def D'_def)
  from dateLE_march [OF m m' assms(3)] consider
    (year) "marchYear y m < marchYear y' m'"
    | (month) "marchYear y m = marchYear y' m'" "marchMonth m < marchMonth m'"
    | (day) "marchYear y m = marchYear y' m'" "m = m'" "d \<le> d'"
    by blast
  then show ?thesis
  proof cases
    case year
    from yearDaysRef_strict [OF year] b show ?thesis unfolding r by linarith
  next
    case month
    then have "m \<noteq> 2" using m m' by (auto simp: marchMonth_def split: if_splits)
    from monthStart_next [OF assms(1) this]
    have "D \<le> (153 * (marchMonth m + 1) + 2) div 5" by (simp add: D_def)
    also have "\<dots> \<le> (153 * marchMonth m' + 2) div 5"
      using month(2) by (intro monthStart_mono) simp
    also have "\<dots> \<le> D'" using d' by (simp add: D'_def)
    finally show ?thesis unfolding r month(1) by linarith
  next
    case day
    then have "D \<le> D'" by (simp add: D_def D'_def)
    then show ?thesis unfolding r day(1) by linarith
  qed
qed

lemma marchYear_nonneg:
  assumes "1 \<le> m" and "dateLE (- 4800, 3, 1) (y, m, d)"
  shows "0 \<le> marchYear y m"
  using assms by (auto simp: dateLE_def marchYear_def)

lemma isLeap_m4800: "isLeap (- 4800)"
  by (simp add: isLeap_def)

lemma jdnReference_negative:
  assumes "validDate y m d" and "marchYear y m < 0"
  shows "jdnReference y m d < 0"
proof -
  have d: "d \<le> 29" if "m = 2"
    using assms(1) that by (simp add: validDate_def daysIn_def split: if_splits)
  have l: "dateLE (y, m, d) (- 4800, 2, 29)"
    using assms d by (auto simp: dateLE_def marchYear_def validDate_def split: if_splits)
  have v: "validDate (- 4800) 2 29"
    by (simp add: validDate_def daysIn_def isLeap_m4800)
  have "jdnReference (- 4800) 2 29 = - 32045" by code_simp
  with jdnReference_mono [OF assms(1) v l] show ?thesis by simp
qed

lemma truncExcess_range: "0 \<le> truncExcess z" "truncExcess z \<le> 1"
  by (simp_all add: truncExcess_def)

lemma jdnReference_upper:
  assumes "validDate y m d" and "dateLE (y, m, d) (25252734927761842, 6, 20)"
  shows "jdnReference y m d \<le> 9223372036854775807"
proof -
  have v: "validDate 25252734927761842 6 20" by (simp add: validDate_def daysIn_def)
  have "jdnReference 25252734927761842 6 20 = 9223372036854775807" by code_simp
  with jdnReference_mono [OF assms(1) v assms(2)] show ?thesis by simp
qed

lemma year_upper:
  assumes "dateLE (y, m, d) (25252734927761842, 6, 20)"
  shows "y \<le> 25252734927761842"
  using assms by (auto simp: dateLE_def)

text \<open>
  Claim C1, as amended. For every calendar-valid proleptic-Gregorian date from 1 March
  of the year -4800 to 20 June of the year 25252734927761842 (negative years from -4800
  on included), \<^verbatim>\<open>gregorianToJDN\<close> returns the value of the reference formula, every
  division being the mathematical floor. Before the first of these dates the divisions
  of the code, which truncate towards zero, act on a negative March-based year (see the
  counterexample); after the last one the Julian Day Number is above \<open>2^63 - 1\<close> and the
  result has wrapped around (\<open>gregorianToJDN_wraps\<close>).
\<close>

theorem gregorianToJDN_reference:
  assumes "validDate y m d" and "dateLE (- 4800, 3, 1) (y, m, d)"
    and "dateLE (y, m, d) (25252734927761842, 6, 20)"
  shows "gregorianToJDN y m d = jdnReference y m d"
proof -
  have m: "1 \<le> m" "m \<le> 12" using assms(1) by (simp_all add: validDate_def)
  have z: "0 \<le> marchYear y m" using m(1) assms(2) by (rule marchYear_nonneg)
  then have e: "truncExcess (marchYear y m) = 0" by (simp add: truncExcess_def)
  have y: "- 4611686018427387904 \<le> y" "y \<le> 4611686018427387904"
    using assms(2) year_upper [OF assms(3)] by (auto simp: dateLE_def)
  have v: "validDate (- 4800) 3 1" by (simp add: validDate_def daysIn_def)
  have "jdnReference (- 4800) 3 1 = - 32044" by code_simp
  with jdnReference_mono [OF v assms(1,2)] have l: "- 32044 \<le> jdnReference y m d" by simp
  have u: "jdnReference y m d \<le> 9223372036854775807"
    using assms(1,3) by (rule jdnReference_upper)
  have "gregorianToJDN y m d = jdnReference y m d + truncExcess (marchYear y m)"
    using m y l u by (intro gregorianToJDN_excess) (simp_all add: e)
  then show ?thesis by (simp add: e)
qed

theorem gregorianToJDN_reference_witness:
  "validDate 2025 9 9 \<and> dateLE (- 4800, 3, 1) (2025, 9, 9)
   \<and> dateLE (2025, 9, 9) (25252734927761842, 6, 20)
   \<and> gregorianToJDN 2025 9 9 = jdnReference 2025 9 9"
proof -
  have v: "validDate 2025 9 9" by (simp add: validDate_def daysIn_def)
  have l: "dateLE (- 4800, 3, 1) (2025, 9, 9)" by (simp add: dateLE_def)
  have u: "dateLE (2025, 9, 9) (25252734927761842, 6, 20)" by (simp add: dateLE_def)
  show ?thesis using v l u gregorianToJDN_reference [OF v l u] by simp
qed

theorem gregorianToJDN_reference_counterexample:
  "validDate (- 4801) 3 1 \<and> gregorianToJDN (- 4801) 3 1 = - 32409
   \<and> jdnReference (- 4801) 3 1 = - 32410
   \<and> gregorianToJDN (- 4801) 3 1 \<noteq> jdnReference (- 4801) 3 1"
  by code_simp

text \<open>
  The day after the last date of the theorem: the sum wraps around to \<open>- 2^63\<close>.
\<close>

lemma gregorianToJDN_wraps:
  "validDate 25252734927761842 6 21
   \<and> gregorianToJDN 25252734927761842 6 21 = - 9223372036854775808
   \<and> jdnReference 25252734927761842 6 21 = 9223372036854775808"
  by code_simp

lemma nextDay_marchYear:
  assumes "validDate y m d" and "nextDay y m d = (y', m', d')"
  shows "1 \<le> m' \<and> m' \<le> 12
         \<and> (marchYear y' m' = marchYear y m \<or> (m = 2 \<and> d = daysIn y 2 \<and> y' = y \<and> m' = 3))"
proof (cases "m = 2")
  case True
  with assms show ?thesis
    by (auto simp: nextDay_def marchYear_def validDate_def split: if_splits)
next
  case False
  with assms show ?thesis
    by (auto simp: nextDay_def marchYear_def validDate_def split: if_splits)
qed

lemma nextDay_year:
  assumes "nextDay y m d = (y', m', d')"
  shows "y \<le> y'" and "y' \<le> y + 1"
  using assms by (auto simp: nextDay_def split: if_splits)

lemma truncExcess_feb:
  assumes "\<not> (y \<le> - 4800 \<and> isLeap y)"
  shows "truncExcess (y + 4799) \<le> truncExcess (y + 4800)"
proof (cases "isLeap y")
  case True
  with assms have "0 \<le> y + 4799" by simp
  then show ?thesis by (simp add: truncExcess_def)
next
  case False
  then have "y \<noteq> - 4800" using isLeap_m4800 by auto
  with False show ?thesis by (simp add: truncExcess_def isLeap_shift)
qed

lemma gregorianToJDN_lower:
  assumes "validDate y m d" and "dateLE (- 25252734927771267, 4, 29) (y, m, d)"
  shows "- 9223372036854775809 \<le> jdnReference y m d"
    and "- 9223372036854775808 \<le> jdnReference y m d + truncExcess (marchYear y m)"
proof -
  have v: "validDate (- 25252734927771267) 4 29" by (simp add: validDate_def daysIn_def)
  have r: "jdnReference (- 25252734927771267) 4 29 = - 9223372036854775809" by code_simp
  from jdnReference_mono [OF v assms] show "- 9223372036854775809 \<le> jdnReference y m d"
    by (simp add: r)
  show "- 9223372036854775808 \<le> jdnReference y m d + truncExcess (marchYear y m)"
  proof (cases "(y, m, d) = (- 25252734927771267, 4, 29)")
    case True
    have "truncExcess (marchYear (- 25252734927771267) 4) = 1" by code_simp
    with True r show ?thesis by simp
  next
    case False
    with assms(2) have l: "dateLE (- 25252734927771267, 4, 30) (y, m, d)"
      by (auto simp: dateLE_def)
    have v': "validDate (- 25252734927771267) 4 30" by (simp add: validDate_def daysIn_def)
    have "jdnReference (- 25252734927771267) 4 30 = - 9223372036854775808" by code_simp
    with jdnReference_mono [OF v' assms(1) l] truncExcess_range(1) [of "marchYear y m"]
    show ?thesis by simp
  qed
qed

text \<open>
  Claim C6, as amended. For every calendar-valid proleptic-Gregorian date from 29 April
  of the year -25252734927771267 to 19 June of the year 25252734927761842, other than
  29 February of a year up to -4800, the Julian Day Number \<^verbatim>\<open>gregorianToJDN\<close> gives the
  following day is greater than the one it gives the date. (On a 29 February of a year
  up to -4800 the two numbers are equal: see the counterexample. Beyond the two bounds
  one of the two numbers has wrapped around: \<open>gregorianToJDN_wraps_forward\<close> and
  \<open>gregorianToJDN_wraps_backward\<close>.)
\<close>

theorem gregorianToJDN_increasing:
  assumes "validDate y m d"
    and "dateLE (- 25252734927771267, 4, 29) (y, m, d)"
    and "dateLE (y, m, d) (25252734927761842, 6, 19)"
    and "\<not> (y \<le> - 4800 \<and> m = 2 \<and> d = 29)"
  shows "case nextDay y m d of (y', m', d') \<Rightarrow> gregorianToJDN y m d < gregorianToJDN y' m' d'"
proof -
  obtain y' m' d' where n: "nextDay y m d = (y', m', d')"
    by (cases "nextDay y m d") auto
  have m: "1 \<le> m" "m \<le> 12" using assms(1) by (simp_all add: validDate_def)
  from nextDay_marchYear [OF assms(1) n]
  have m': "1 \<le> m'" "m' \<le> 12"
    and c: "marchYear y' m' = marchYear y m \<or> (m = 2 \<and> d = daysIn y 2 \<and> y' = y \<and> m' = 3)"
    by simp_all
  have r: "jdnReference y' m' d' = jdnReference y m d + 1"
    using jdnReference_nextDay [OF assms(1)] by (simp add: n)
  have e: "truncExcess (marchYear y m) \<le> truncExcess (marchYear y' m')"
  proof (cases "marchYear y' m' = marchYear y m")
    case True
    then show ?thesis by simp
  next
    case False
    with c have f: "m = 2" "d = daysIn y 2" "y' = y" "m' = 3" by simp_all
    have "\<not> (y \<le> - 4800 \<and> isLeap y)"
      using assms(4) f by (auto simp: daysIn_def)
    from truncExcess_feb [OF this] show ?thesis
      by (simp add: f marchYear_def)
  qed
  have z: "marchYear y m \<le> marchYear y' m'"
    using c by (auto simp: marchYear_def)
  have y: "- 4611686018427387904 \<le> y" "y \<le> 4611686018427387904"
    using assms(2,3) by (auto simp: dateLE_def)
  have y': "- 4611686018427387904 \<le> y'" "y' \<le> 4611686018427387904"
    using assms(2,3) nextDay_year [OF n] by (auto simp: dateLE_def)
  have l: "- 9223372036854775809 \<le> jdnReference y m d"
    "- 9223372036854775808 \<le> jdnReference y m d + truncExcess (marchYear y m)"
    using assms(1,2) by (rule gregorianToJDN_lower)+
  have v: "validDate 25252734927761842 6 19" by (simp add: validDate_def daysIn_def)
  have "jdnReference 25252734927761842 6 19 = 9223372036854775806" by code_simp
  with jdnReference_mono [OF assms(1) v assms(3)]
  have u: "jdnReference y m d \<le> 9223372036854775806" by simp
  have u': "jdnReference y' m' d' + truncExcess (marchYear y' m') < 9223372036854775808"
  proof (cases "marchYear y' m' < 0")
    case True
    with z have "marchYear y m < 0" by simp
    from jdnReference_negative [OF assms(1) this] truncExcess_range(2) [of "marchYear y' m'"]
    show ?thesis unfolding r by linarith
  next
    case False
    then have "truncExcess (marchYear y' m') = 0" by (simp add: truncExcess_def)
    with u show ?thesis unfolding r by simp
  qed
  have g: "gregorianToJDN y m d = jdnReference y m d + truncExcess (marchYear y m)"
    using m y l(2) u truncExcess_range(2) [of "marchYear y m"]
    by (intro gregorianToJDN_excess) simp_all
  have g': "gregorianToJDN y' m' d' = jdnReference y' m' d' + truncExcess (marchYear y' m')"
    using m' y' l(1) u' truncExcess_range(1) [of "marchYear y' m'"]
    by (intro gregorianToJDN_excess) (simp_all add: r)
  have "gregorianToJDN y m d < gregorianToJDN y' m' d'"
    unfolding g g' r using e by simp
  then show ?thesis by (simp add: n)
qed

theorem gregorianToJDN_increasing_witness:
  "validDate 2024 2 29
   \<and> dateLE (- 25252734927771267, 4, 29) (2024, 2, 29)
   \<and> dateLE (2024, 2, 29) (25252734927761842, 6, 19)
   \<and> \<not> ((2024::int) \<le> - 4800 \<and> (2::int) = 2 \<and> (29::int) = 29)
   \<and> nextDay 2024 2 29 = (2024, 3, 1)
   \<and> gregorianToJDN 2024 2 29 < gregorianToJDN 2024 3 1"
proof -
  have v: "validDate 2024 2 29" by (simp add: validDate_def daysIn_def isLeap_def)
  have l: "dateLE (- 25252734927771267, 4, 29) (2024, 2, 29)" by (simp add: dateLE_def)
  have u: "dateLE (2024, 2, 29) (25252734927761842, 6, 19)" by (simp add: dateLE_def)
  have h: "\<not> ((2024::int) \<le> - 4800 \<and> (2::int) = 2 \<and> (29::int) = 29)" by simp
  have n: "nextDay 2024 2 29 = (2024, 3, 1)" by (simp add: nextDay_def daysIn_def isLeap_def)
  show ?thesis using v l u n gregorianToJDN_increasing [OF v l u h] by simp
qed

theorem gregorianToJDN_increasing_counterexample:
  "validDate (- 4804) 2 29 \<and> nextDay (- 4804) 2 29 = (- 4804, 3, 1)
   \<and> gregorianToJDN (- 4804) 2 29 = - 33505 \<and> gregorianToJDN (- 4804) 3 1 = - 33505
   \<and> \<not> gregorianToJDN (- 4804) 2 29 < gregorianToJDN (- 4804) 3 1"
  by code_simp

text \<open>
  The steps just outside the dates of the theorem: from the greatest 64-bit integer the
  result goes to the least one.
\<close>

lemma gregorianToJDN_wraps_forward:
  "validDate 25252734927761842 6 20
   \<and> nextDay 25252734927761842 6 20 = (25252734927761842, 6, 21)
   \<and> gregorianToJDN 25252734927761842 6 20 = 9223372036854775807
   \<and> gregorianToJDN 25252734927761842 6 21 = - 9223372036854775808"
  by code_simp

lemma gregorianToJDN_wraps_backward:
  "validDate (- 25252734927771267) 4 28
   \<and> nextDay (- 25252734927771267) 4 28 = (- 25252734927771267, 4, 29)
   \<and> gregorianToJDN (- 25252734927771267) 4 28 = 9223372036854775807
   \<and> gregorianToJDN (- 25252734927771267) 4 29 = - 9223372036854775808"
  by code_simp

section \<open>The Julian calendar\<close>

lemma dateLE_refl: "dateLE p p"
  by (cases p) (simp add: dateLE_def)

lemma dateLE_trans: "dateLE p q \<Longrightarrow> dateLE q r \<Longrightarrow> dateLE p r"
  by (cases p; cases q; cases r) (auto simp: dateLE_def)

lemma gregorianToJDN_value:
  assumes "validDate y m d"
    and "dateLE (- 25252734927771267, 4, 29) (y, m, d)"
    and "dateLE (y, m, d) (25252734927761842, 6, 20)"
  shows "gregorianToJDN y m d = jdnReference y m d + truncExcess (marchYear y m)"
proof -
  have m: "1 \<le> m" "m \<le> 12" using assms(1) by (simp_all add: validDate_def)
  have y: "- 4611686018427387904 \<le> y" "y \<le> 4611686018427387904"
    using assms(2,3) by (auto simp: dateLE_def)
  have l: "- 9223372036854775808 \<le> jdnReference y m d + truncExcess (marchYear y m)"
    using assms(1,2) by (rule gregorianToJDN_lower)
  have u: "jdnReference y m d + truncExcess (marchYear y m) < 9223372036854775808"
  proof (cases "marchYear y m < 0")
    case True
    from jdnReference_negative [OF assms(1) this] truncExcess_range(2) [of "marchYear y m"]
    show ?thesis by linarith
  next
    case False
    then have "truncExcess (marchYear y m) = 0" by (simp add: truncExcess_def)
    with jdnReference_upper [OF assms(1,3)] show ?thesis by simp
  qed
  from m y l u show ?thesis by (rule gregorianToJDN_excess)
qed

lemma jdnToJulian_inverse:
  assumes "0 \<le> jdn + 32082" and "jdn + 32082 < 2305843009213693952"
  shows "case jdnToJulian jdn of (jy, jm, jd) \<Rightarrow>
           validJulianDate jy jm jd \<and> julianToJDN jy jm jd = jdn"
proof -
  define c where "c = jdn + 32082"
  define dd where "dd = (4 * c + 3) div 1461"
  define f where "f = (1461 * dd) div 4"
  define e where "e = c - f"
  define mm where "mm = (5 * e + 2) div 153"
  define q where "q = (153 * mm + 2) div 5"
  define t :: int where "t = (if mm \<le> 9 then 0 else 1)"
  have c0: "0 \<le> c" "c < 2305843009213693952" using assms by (simp_all add: c_def)
  have w1: "wrap64 (jdn + 32082) = c"
    unfolding c_def [symmetric] using c0 by (intro wrap64_id) simp_all
  have w2: "wrap64 (4 * c + 3) = 4 * c + 3" using c0 by (intro wrap64_id) simp_all
  have dd0: "0 \<le> dd" unfolding dd_def using c0 by (simp add: pos_imp_zdiv_nonneg_iff)
  have ddb: "1461 * dd \<le> 4 * c + 3" "4 * c + 3 < 1461 * dd + 1461"
    unfolding dd_def by (rule div_bounds, simp)+
  have s1: "wrap64 (4 * c + 3) sdiv 1461 = dd"
    unfolding w2 dd_def using c0 by (intro sdiv_nonneg) simp_all
  have w3: "wrap64 (1461 * dd) = 1461 * dd" using dd0 ddb c0 by (intro wrap64_id) simp_all
  have s2: "wrap64 (1461 * dd) sdiv 4 = f"
    unfolding w3 f_def using dd0 by (intro sdiv_nonneg) simp_all
  have fb: "4 * f \<le> 1461 * dd" "1461 * dd < 4 * f + 4"
    unfolding f_def by (rule div_bounds, simp)+
  have e_rng: "0 \<le> e" "e \<le> 365"
    using ddb fb unfolding e_def by linarith+
  have w4: "wrap64 (c - f) = e"
    unfolding e_def [symmetric] using e_rng by (intro wrap64_id) simp_all
  have w5: "wrap64 (5 * e + 2) = 5 * e + 2" using e_rng by (intro wrap64_id) simp_all
  have s3: "wrap64 (5 * e + 2) sdiv 153 = mm"
    unfolding w5 mm_def using e_rng by (intro sdiv_nonneg) simp_all
  have mb: "153 * mm \<le> 5 * e + 2" "5 * e + 2 < 153 * mm + 153"
    unfolding mm_def by (rule div_bounds, simp)+
  have mm_rng: "0 \<le> mm" "mm \<le> 11"
    using mb e_rng by linarith+
  have w6: "wrap64 (153 * mm + 2) = 153 * mm + 2" using mm_rng by (intro wrap64_id) simp_all
  have s4: "wrap64 (153 * mm + 2) sdiv 5 = q"
    unfolding w6 q_def using mm_rng by (intro sdiv_nonneg) simp_all
  have qb: "5 * q \<le> 153 * mm + 2" "153 * mm + 2 < 5 * q + 5"
    unfolding q_def by (rule div_bounds, simp)+
  have td: "mm div 10 = t"
    using mm_rng div_bounds [of 10 mm] by (simp add: t_def split: if_splits)
  have s5: "mm sdiv 10 = t"
    using mm_rng td by (simp add: sdiv_nonneg)
  have t_rng: "0 \<le> t" "t \<le> 1" by (simp_all add: t_def)
  have day_rng: "1 \<le> e - q + 1" "e - q + 1 \<le> 31"
    using mb qb by linarith+
  have w7: "wrap64 (e - q + 1) = e - q + 1" using day_rng by (intro wrap64_id) simp_all
  have w8: "wrap64 (mm + 3 - 12 * t) = mm + 3 - 12 * t"
    using mm_rng t_rng by (intro wrap64_id) simp_all
  have w9: "wrap64 (dd - 4800 + t) = dd - 4800 + t"
    using dd0 ddb c0 t_rng by (intro wrap64_id) simp_all
  have J: "jdnToJulian jdn = (dd - 4800 + t, mm + 3 - 12 * t, e - q + 1)"
    unfolding jdnToJulian_def Let_def w1 s1 s2 w4 s3 s4 s5 w7 w8 w9 ..
  have a: "(14 - (mm + 3 - 12 * t)) div 12 = t"
    using mm_rng by (simp add: t_def split: if_splits)
  have "julianToJDN (dd - 4800 + t) (mm + 3 - 12 * t) (e - q + 1)
        = e - q + 1 + q + 365 * dd + dd div 4 - 32083"
    unfolding julianToJDN_def Let_def a q_def by simp
  also have "\<dots> = e + f - 32082"
    by (simp add: f_def quarter_days)
  also have "\<dots> = jdn" by (simp add: e_def c_def)
  finally have R: "julianToJDN (dd - 4800 + t) (mm + 3 - 12 * t) (e - q + 1) = jdn" .
  have leap: "(dd - 4799) mod 4 = 0" if "e = 365"
  proof -
    define q4 r4 where "q4 = dd div 4" and "r4 = dd mod 4"
    have dq: "dd = 4 * q4 + r4" and r: "0 \<le> r4" "r4 < 4" by (simp_all add: q4_def r4_def)
    have "f = 365 * dd + q4" unfolding f_def q4_def by (rule quarter_days)
    with that have "c = 365 + 365 * dd + q4" by (simp add: e_def)
    with ddb(2) dq r have "r4 = 3" by linarith
    with dq have "dd - 4799 = 4 * (q4 - 1199)" by simp
    then show ?thesis by simp
  qed
  have mc: "mm = 0 \<or> mm = 1 \<or> mm = 2 \<or> mm = 3 \<or> mm = 4 \<or> mm = 5 \<or> mm = 6 \<or> mm = 7
              \<or> mm = 8 \<or> mm = 9 \<or> mm = 10 \<or> mm = 11"
    using mm_rng by arith
  have other: "e - q + 1 \<le> julianDaysIn (dd - 4800 + t) (mm + 3 - 12 * t)"
    if "mm = 0 \<or> mm = 1 \<or> mm = 2 \<or> mm = 3 \<or> mm = 4 \<or> mm = 5 \<or> mm = 6 \<or> mm = 7
              \<or> mm = 8 \<or> mm = 9 \<or> mm = 10"
    using that mb by (elim disjE) (simp_all add: q_def t_def julianDaysIn_def)
  have feb: "e - q + 1 \<le> julianDaysIn (dd - 4800 + t) (mm + 3 - 12 * t)" if "mm = 11"
  proof (cases "e = 365")
    case True
    from leap [OF this] that True show ?thesis by (simp add: q_def t_def julianDaysIn_def)
  next
    case False
    with e_rng that show ?thesis by (simp add: q_def t_def julianDaysIn_def)
  qed
  have "e - q + 1 \<le> julianDaysIn (dd - 4800 + t) (mm + 3 - 12 * t)"
    using mc other feb by blast
  moreover have "1 \<le> mm + 3 - 12 * t" "mm + 3 - 12 * t \<le> 12"
    using mm_rng by (simp_all add: t_def)
  ultimately have "validJulianDate (dd - 4800 + t) (mm + 3 - 12 * t) (e - q + 1)"
    using day_rng(1) by (simp add: validJulianDate_def)
  with R show ?thesis by (simp add: J)
qed

text \<open>
  Claim C3. For every calendar-valid Gregorian date from 1800-01-01 to 2200-12-31,
  \<^verbatim>\<open>jdnToJulian\<close> gives for the Julian Day Number of the date a valid date of the Julian
  calendar (a month from 1 to 12 and a day of that month, February having 29 days in
  every fourth year), and the reference formula of the Julian calendar maps that date
  back to the same Julian Day Number. (The two properties determine the date that is
  returned: \<open>julianToJDN_injective\<close> below.)
\<close>

theorem julian_round_trip:
  assumes "validDate y m d"
    and "dateLE (1800, 1, 1) (y, m, d)" and "dateLE (y, m, d) (2200, 12, 31)"
  shows "case jdnToJulian (gregorianToJDN y m d) of (jy, jm, jd) \<Rightarrow>
           validJulianDate jy jm jd \<and> julianToJDN jy jm jd = gregorianToJDN y m d"
proof -
  have "dateLE (- 25252734927771267, 4, 29) (1800, 1, 1)" by (simp add: dateLE_def)
  then have l: "dateLE (- 25252734927771267, 4, 29) (y, m, d)"
    using assms(2) by (rule dateLE_trans)
  have "dateLE (2200, 12, 31) (25252734927761842, 6, 20)" by (simp add: dateLE_def)
  with assms(3) have u: "dateLE (y, m, d) (25252734927761842, 6, 20)" by (rule dateLE_trans)
  have m: "1 \<le> m" using assms(1) by (simp add: validDate_def)
  have "dateLE (- 4800, 3, 1) (1800, 1, 1)" by (simp add: dateLE_def)
  then have "dateLE (- 4800, 3, 1) (y, m, d)" using assms(2) by (rule dateLE_trans)
  with m have "0 \<le> marchYear y m" by (rule marchYear_nonneg)
  then have "truncExcess (marchYear y m) = 0" by (simp add: truncExcess_def)
  with gregorianToJDN_value [OF assms(1) l u]
  have g: "gregorianToJDN y m d = jdnReference y m d" by simp
  have v1: "validDate 1800 1 1" by (simp add: validDate_def daysIn_def)
  have v2: "validDate 2200 12 31" by (simp add: validDate_def daysIn_def)
  have r1: "jdnReference 1800 1 1 = 2378497" by code_simp
  have r2: "jdnReference 2200 12 31 = 2524958" by code_simp
  from jdnReference_mono [OF v1 assms(1,2)] jdnReference_mono [OF assms(1) v2 assms(3)]
  have "0 \<le> gregorianToJDN y m d + 32082"
    "gregorianToJDN y m d + 32082 < 2305843009213693952"
    unfolding g r1 r2 by simp_all
  then show ?thesis by (rule jdnToJulian_inverse)
qed

theorem julian_round_trip_witness:
  "validDate 2025 9 9 \<and> dateLE (1800, 1, 1) (2025, 9, 9) \<and> dateLE (2025, 9, 9) (2200, 12, 31)
   \<and> gregorianToJDN 2025 9 9 = 2460928 \<and> jdnToJulian 2460928 = (2025, 8, 27)
   \<and> validJulianDate 2025 8 27 \<and> julianToJDN 2025 8 27 = 2460928"
proof -
  have v: "validDate 2025 9 9" by (simp add: validDate_def daysIn_def)
  have l: "dateLE (1800, 1, 1) (2025, 9, 9)" by (simp add: dateLE_def)
  have u: "dateLE (2025, 9, 9) (2200, 12, 31)" by (simp add: dateLE_def)
  have g: "gregorianToJDN 2025 9 9 = 2460928" by code_simp
  have j: "jdnToJulian 2460928 = (2025, 8, 27)" by code_simp
  from julian_round_trip [OF v l u]
  have "validJulianDate 2025 8 27 \<and> julianToJDN 2025 8 27 = 2460928"
    by (simp add: g j)
  with v l u g j show ?thesis by simp
qed

lemma julianToJDN_months:
  assumes "1 \<le> m" "m \<le> 12"
  shows "julianToJDN y m d =
           d + (153 * marchMonth m + 2) div 5
             + (365 * marchYear y m + marchYear y m div 4) - 32083"
proof (cases "m \<le> 2")
  case True
  have "y + 4800 - 1 = y + 4799" "m + 12 * 1 - 3 = m + 9" by simp_all
  then show ?thesis
    unfolding julianToJDN_def Let_def month_shift [OF assms] marchYear_def marchMonth_def
    using True by (simp add: add.commute)
next
  case False
  then show ?thesis
    unfolding julianToJDN_def Let_def month_shift [OF assms] marchYear_def marchMonth_def
    by simp
qed

lemma julianDayOfMarchYear:
  assumes "validJulianDate y m d"
  shows "1 \<le> d + (153 * marchMonth m + 2) div 5"
    and "d + (153 * marchMonth m + 2) div 5
           \<le> 365 + (if (marchYear y m + 1) mod 4 = 0 then 1 else 0)"
proof -
  have m: "1 \<le> m" "m \<le> 12" and d: "1 \<le> d" "d \<le> julianDaysIn y m"
    using assms by (simp_all add: validJulianDate_def)
  show "1 \<le> d + (153 * marchMonth m + 2) div 5"
  proof (cases "m = 2")
    case True
    with d show ?thesis by (simp add: marchMonth_def)
  next
    case False
    with m d have "validDate y m d" by (simp add: validDate_def julianDaysIn_def daysIn_def)
    then show ?thesis by (rule dayOfMarchYear)
  qed
  show "d + (153 * marchMonth m + 2) div 5
           \<le> 365 + (if (marchYear y m + 1) mod 4 = 0 then 1 else 0)"
  proof (cases "m = 2")
    case True
    have "(y + 4800) mod 4 = y mod 4" using mod_mult_self2 [of y 4 1200] by simp
    then have "(4800 + y) mod 4 = y mod 4" by (simp add: add.commute)
    with True d show ?thesis
      by (simp add: marchMonth_def marchYear_def julianDaysIn_def split: if_splits)
  next
    case False
    with m d have v: "validDate y m d"
      by (simp add: validDate_def julianDaysIn_def daysIn_def)
    from False m have "marchMonth m + 1 \<le> 11" by (simp add: marchMonth_def)
    then have "(153 * (marchMonth m + 1) + 2) div 5 \<le> (153 * 11 + 2) div (5::int)"
      by (rule monthStart_mono)
    with monthStart_next [OF v False] show ?thesis by simp
  qed
qed

lemma julianYear_mono:
  fixes z z' :: int
  assumes "z \<le> z'"
  shows "365 * z + z div 4 \<le> 365 * z' + z' div 4"
proof -
  have "z div 4 \<le> z' div 4" using assms by (intro zdiv_mono1) simp_all
  with assms show ?thesis by simp
qed

lemma julianToJDN_strict:
  assumes "validJulianDate y m d" and "validJulianDate y' m' d'"
    and "dateLE (y, m, d) (y', m', d')" and "(y, m, d) \<noteq> (y', m', d')"
  shows "julianToJDN y m d < julianToJDN y' m' d'"
proof -
  have m: "1 \<le> m" "m \<le> 12" and m': "1 \<le> m'" "m' \<le> 12" and d': "1 \<le> d'"
    using assms(1,2) by (simp_all add: validJulianDate_def)
  define D where "D = d + (153 * marchMonth m + 2) div 5"
  define D' where "D' = d' + (153 * marchMonth m' + 2) div 5"
  define z z' where "z = marchYear y m" and "z' = marchYear y' m'"
  have r: "julianToJDN y m d = D + (365 * z + z div 4) - 32083"
    "julianToJDN y' m' d' = D' + (365 * z' + z' div 4) - 32083"
    by (simp_all add: julianToJDN_months m m' D_def D'_def z_def z'_def)
  have b: "D \<le> 365 + (if (z + 1) mod 4 = 0 then 1 else 0)" "1 \<le> D'"
    using julianDayOfMarchYear [OF assms(1)] julianDayOfMarchYear [OF assms(2)]
    by (simp_all add: D_def D'_def z_def)
  from dateLE_march [OF m m' assms(3)] consider
    (year) "z < z'"
    | (month) "z = z'" "marchMonth m < marchMonth m'"
    | (day) "z = z'" "m = m'" "d \<le> d'"
    unfolding z_def z'_def by blast
  then show ?thesis
  proof cases
    case year
    then have "z + 1 \<le> z'" by simp
    from julianYear_mono [OF this]
    have "365 * (z + 1) + (z + 1) div 4 \<le> 365 * z' + z' div 4" .
    moreover have "(z + 1) div 4 = z div 4 + (if (z + 1) mod 4 = 0 then 1 else 0)"
      by (rule div_step) simp
    ultimately show ?thesis using b unfolding r by (simp split: if_splits)
  next
    case month
    then have "m \<noteq> 2" using m m' by (auto simp: marchMonth_def split: if_splits)
    with m assms(1) have v: "validDate y m d"
      by (simp add: validDate_def validJulianDate_def julianDaysIn_def daysIn_def)
    from monthStart_next [OF v \<open>m \<noteq> 2\<close>]
    have "D \<le> (153 * (marchMonth m + 1) + 2) div 5" by (simp add: D_def)
    also have "\<dots> \<le> (153 * marchMonth m' + 2) div 5"
      using month(2) by (intro monthStart_mono) simp
    also have "\<dots> < D'" using d' by (simp add: D'_def)
    finally show ?thesis unfolding r month(1) by linarith
  next
    case day
    then have "y = y'" by (simp add: z_def z'_def marchYear_def split: if_splits)
    with day assms(4) have "d < d'" by simp
    then have "D < D'" using day by (simp add: D_def D'_def)
    then show ?thesis unfolding r day(1) by linarith
  qed
qed

text \<open>
  No two valid dates of the Julian calendar have the same Julian Day Number: a valid
  Julian date is determined by the number the reference formula gives it.
\<close>

lemma julianToJDN_injective:
  assumes "validJulianDate y m d" and "validJulianDate y' m' d'"
    and "julianToJDN y m d = julianToJDN y' m' d'"
  shows "(y, m, d) = (y', m', d')"
proof (rule ccontr)
  assume n: "(y, m, d) \<noteq> (y', m', d')"
  have "dateLE (y, m, d) (y', m', d') \<or> dateLE (y', m', d') (y, m, d)"
    by (auto simp: dateLE_def)
  then show False
  proof
    assume "dateLE (y, m, d) (y', m', d')"
    from julianToJDN_strict [OF assms(1,2) this n] assms(3) show False by simp
  next
    assume "dateLE (y', m', d') (y, m, d)"
    from julianToJDN_strict [OF assms(2,1) this] n assms(3) show False by auto
  qed
qed

text \<open>
  So \<^verbatim>\<open>jdnToJulian\<close> returns the one valid Julian date of a Julian Day Number.
\<close>

lemma jdnToJulian_determined:
  assumes "0 \<le> jdn + 32082" and "jdn + 32082 < 2305843009213693952"
    and "validJulianDate jy jm jd" and "julianToJDN jy jm jd = jdn"
  shows "jdnToJulian jdn = (jy, jm, jd)"
proof -
  obtain y m d where j: "jdnToJulian jdn = (y, m, d)" by (cases "jdnToJulian jdn") auto
  from jdnToJulian_inverse [OF assms(1,2)]
  have "validJulianDate y m d" "julianToJDN y m d = jdn" by (simp_all add: j)
  with assms(3,4) have "(y, m, d) = (jy, jm, jd)" by (intro julianToJDN_injective) simp_all
  with j show ?thesis by simp
qed

section \<open>The civil Hijri calendar\<close>

lemma gregorianToJDN_range:
  "- 9223372036854775808 \<le> gregorianToJDN y m d" "gregorianToJDN y m d < 9223372036854775808"
  by (simp_all add: gregorianToJDN_def Let_def wrap64_range)

lemma islamicCivilFromGregorian_stages:
  "islamicCivilFromGregorian y m d =
     (let jdn = gregorianToJDN y m d;
          l = wrap64 (jdn - 1948440 + 10632);
          n = wrap64 (l - 1) sdiv 10631;
          l2 = wrap64 (l - 10631 * n + 354);
          j = hijriYear l2;
          l3 = hijriDays l2 j;
          im = wrap64 (24 * l3) sdiv 709
      in (wrap64 (30 * n + j - 30), im, wrap64 (l3 - wrap64 (709 * im) sdiv 24)))"
  unfolding islamicCivilFromGregorian_def hijriYear_def hijriDays_def Let_def ..

lemma low_cases:
  fixes j :: int
  assumes "1 \<le> j" "j \<le> 15"
  shows "j = 1 \<or> j = 2 \<or> j = 3 \<or> j = 4 \<or> j = 5 \<or> j = 6 \<or> j = 7 \<or> j = 8 \<or> j = 9
           \<or> j = 10 \<or> j = 11 \<or> j = 12 \<or> j = 13 \<or> j = 14 \<or> j = 15"
  using assms by arith

lemma high_cases:
  fixes j :: int
  assumes "16 \<le> j" "j \<le> 30"
  shows "j = 16 \<or> j = 17 \<or> j = 18 \<or> j = 19 \<or> j = 20 \<or> j = 21 \<or> j = 22 \<or> j = 23
           \<or> j = 24 \<or> j = 25 \<or> j = 26 \<or> j = 27 \<or> j = 28 \<or> j = 29 \<or> j = 30"
  using assms by arith

lemma low_table:
  fixes j l :: int
  assumes "1 \<le> j" "j \<le> 15" and "17719 * j \<le> 50 * l" and "50 * l < 17719 * j + 17719"
  shows "(17719 * j) div 50 = 354 * j + (11 * j + 3) div 30
         \<and> 354 * j + (11 * j + 3) div 30 + 1 \<le> l
         \<and> l \<le> 354 * j + (11 * j + 3) div 30 + 355"
  using low_cases [OF assms(1,2)] assms(3,4) by (elim disjE) simp_all

lemma high_table:
  fixes j l :: int
  assumes "16 \<le> j" "j \<le> 30" and "15238 * j \<le> 43 * l" and "43 * l < 15238 * j + 15238"
  shows "(15238 * j) div 43 = 354 * j + (11 * j + 3) div 30
         \<and> 354 * j + (11 * j + 3) div 30 + 1 \<le> l
         \<and> l \<le> 354 * j + (11 * j + 3) div 30 + 355"
  using high_cases [OF assms(1,2)] assms(3,4) by (elim disjE) simp_all

lemma hijriYear_stage:
  assumes "355 \<le> l" "l \<le> 10985"
  shows "1 \<le> hijriYear l \<and> hijriYear l \<le> 30
         \<and> hijriDays l (hijriYear l)
             = l - (354 * hijriYear l + (11 * hijriYear l + 3) div 30) + 29
         \<and> 354 * hijriYear l + (11 * hijriYear l + 3) div 30 + 1 \<le> l
         \<and> l \<le> 354 * hijriYear l + (11 * hijriYear l + 3) div 30 + 355"
proof (cases "l \<le> 5669")
  case True
  define j where "j = (50 * l) div 17719"
  define F where "F = 354 * j + (11 * j + 3) div 30"
  have b: "17719 * j \<le> 50 * l" "50 * l < 17719 * j + 17719"
    unfolding j_def by (rule div_bounds, simp)+
  have r: "1 \<le> j" "j \<le> 15" using b assms True by linarith+
  have w: "wrap64 (10985 - l) = 10985 - l" "wrap64 (50 * l) = 50 * l"
    "wrap64 (43 * l) = 43 * l"
    using assms by (simp_all add: wrap64_id)
  have wj: "wrap64 j = j" using r by (simp add: wrap64_id)
  have "10985 - l = 5316 * 1 + (5669 - l)" by simp
  then have "(10985 - l) div 5316 = 1"
    by (rule int_div_pos_eq) (use assms True in simp_all)
  then have a: "(10985 - l) sdiv 5316 = 1" using True by (simp add: sdiv_nonneg)
  have c: "l sdiv 5670 = 0" using assms True by (simp add: sdiv_nonneg)
  have sj: "(50 * l) sdiv 17719 = j" unfolding j_def using assms by (simp add: sdiv_nonneg)
  have y: "hijriYear l = j"
    unfolding hijriYear_def w a c sj by (simp add: wj)
  have wd: "wrap64 (30 - j) = 30 - j" "wrap64 (17719 * j) = 17719 * j"
    "wrap64 (15238 * j) = 15238 * j"
    using r by (simp_all add: wrap64_id)
  have "30 - j = 15 * 1 + (15 - j)" by simp
  then have "(30 - j) div 15 = 1"
    by (rule int_div_pos_eq) (use r in simp_all)
  then have e: "(30 - j) sdiv 15 = 1" using r by (simp add: sdiv_nonneg)
  have f: "j sdiv 16 = 0" using r by (simp add: sdiv_nonneg)
  have sf: "(17719 * j) sdiv 50 = (17719 * j) div 50" using r by (simp add: sdiv_nonneg)
  from low_table [OF r b]
  have t: "(17719 * j) div 50 = F" "F + 1 \<le> l" "l \<le> F + 355"
    by (simp_all add: F_def)
  have "hijriDays l j = wrap64 (l - F + 29)"
    unfolding hijriDays_def wd e f sf t(1) by simp
  also have "\<dots> = l - F + 29" using t(2,3) by (simp add: wrap64_id)
  finally have d: "hijriDays l j = l - F + 29" .
  show ?thesis unfolding y d F_def [symmetric] using r t(2,3) by simp
next
  case False
  define j where "j = (43 * l) div 15238"
  define F where "F = 354 * j + (11 * j + 3) div 30"
  have b: "15238 * j \<le> 43 * l" "43 * l < 15238 * j + 15238"
    unfolding j_def by (rule div_bounds, simp)+
  have r: "16 \<le> j" "j \<le> 30" using b assms False by linarith+
  have w: "wrap64 (10985 - l) = 10985 - l" "wrap64 (50 * l) = 50 * l"
    "wrap64 (43 * l) = 43 * l"
    using assms by (simp_all add: wrap64_id)
  have wj: "wrap64 j = j" using r by (simp add: wrap64_id)
  have w0: "wrap64 0 = 0" by (simp add: wrap64_id)
  have a: "(10985 - l) sdiv 5316 = 0" using assms False by (simp add: sdiv_nonneg)
  have "l = 5670 * 1 + (l - 5670)" by simp
  then have "l div 5670 = 1"
    by (rule int_div_pos_eq) (use assms False in simp_all)
  then have c: "l sdiv 5670 = 1" using assms by (simp add: sdiv_nonneg)
  have sj: "(43 * l) sdiv 15238 = j" unfolding j_def using assms by (simp add: sdiv_nonneg)
  have y: "hijriYear l = j"
    unfolding hijriYear_def w a c sj by (simp add: wj w0)
  have wd: "wrap64 (30 - j) = 30 - j" "wrap64 (17719 * j) = 17719 * j"
    "wrap64 (15238 * j) = 15238 * j"
    using r by (simp_all add: wrap64_id)
  have e: "(30 - j) sdiv 15 = 0" using r by (simp add: sdiv_nonneg)
  have "j = 16 * 1 + (j - 16)" by simp
  then have "j div 16 = 1"
    by (rule int_div_pos_eq) (use r in simp_all)
  then have f: "j sdiv 16 = 1" using r by (simp add: sdiv_nonneg)
  have sf: "(15238 * j) sdiv 43 = (15238 * j) div 43" using r by (simp add: sdiv_nonneg)
  from high_table [OF r b]
  have t: "(15238 * j) div 43 = F" "F + 1 \<le> l" "l \<le> F + 355"
    by (simp_all add: F_def)
  have "hijriDays l j = wrap64 (l - F + 29)"
    unfolding hijriDays_def wd e f sf t(1) by simp
  also have "\<dots> = l - F + 29" using t(2,3) by (simp add: wrap64_id)
  finally have d: "hijriDays l j = l - F + 29" .
  show ?thesis unfolding y d F_def [symmetric] using r t(2,3) by simp
qed

lemma hijriMonth_stage:
  fixes l3 :: int
  assumes "30 \<le> l3" "l3 \<le> 384"
  defines "im \<equiv> wrap64 (24 * l3) sdiv 709"
  defines "id1 \<equiv> wrap64 (l3 - wrap64 (709 * im) sdiv 24)"
  shows "1 \<le> im \<and> im \<le> 12 \<and> 1 \<le> id1 \<and> id1 \<le> 30
         \<and> 30 * im - (im - 1) div 2 + id1 = l3 + 1"
proof -
  define k where "k = (24 * l3) div 709"
  have b: "709 * k \<le> 24 * l3" "24 * l3 < 709 * k + 709"
    unfolding k_def by (rule div_bounds, simp)+
  have r: "1 \<le> k" "k \<le> 12" using b assms(1,2) by linarith+
  have w: "wrap64 (24 * l3) = 24 * l3" using assms(1,2) by (simp add: wrap64_id)
  have i: "im = k" unfolding im_def w k_def using assms(1) by (simp add: sdiv_nonneg)
  have wk: "wrap64 (709 * k) = 709 * k" using r by (simp add: wrap64_id)
  have t: "1 \<le> l3 - (709 * k) div 24 \<and> l3 - (709 * k) div 24 \<le> 30
         \<and> 30 * k - (k - 1) div 2 + (l3 - (709 * k) div 24) = l3 + 1"
    using month_cases [OF r] b by (elim disjE) simp_all
  have "id1 = wrap64 (l3 - (709 * k) div 24)"
    unfolding id1_def i wk using r by (simp add: sdiv_nonneg)
  also have "\<dots> = l3 - (709 * k) div 24" using t by (simp add: wrap64_id)
  finally have d: "id1 = l3 - (709 * k) div 24" .
  show ?thesis unfolding i d using r t by simp
qed

lemma hijri_cycle:
  fixes jdn :: int
  assumes "1948440 \<le> jdn" and "jdn < 9223372036854775808"
  defines "k \<equiv> (jdn - 1948440) div 10631"
  defines "r \<equiv> (jdn - 1948440) mod 10631"
  defines "l \<equiv> wrap64 (jdn - 1948440 + 10632)"
  shows "wrap64 (l - 1) sdiv 10631 = k + 1" and "wrap64 (l - 10631 * (k + 1) + 354) = r + 355"
    and "0 \<le> r" and "r < 10631" and "jdn = 1948440 + 10631 * k + r"
    and "0 \<le> k" and "10631 * k < 9223372036854775808"
proof -
  have j: "jdn - 1948440 = 10631 * k + r" by (simp add: k_def r_def)
  then show "jdn = 1948440 + 10631 * k + r" by simp
  show r: "0 \<le> r" "r < 10631" by (simp_all add: r_def)
  show k: "0 \<le> k" unfolding k_def using assms(1) by (simp add: pos_imp_zdiv_nonneg_iff)
  show kb: "10631 * k < 9223372036854775808" using j r assms(2) by linarith
  have l: "l = jdn - 1948440 + 10632"
    unfolding l_def using assms(1,2) by (intro wrap64_id) simp_all
  have w: "wrap64 (l - 1) = l - 1" using assms(1,2) by (simp add: l wrap64_id)
  have "l - 1 = 10631 * (k + 1) + r" using j by (simp add: l)
  then have "(l - 1) div 10631 = k + 1" using r by (rule int_div_pos_eq)
  moreover have "0 \<le> l - 1" using assms(1) by (simp add: l)
  ultimately show "wrap64 (l - 1) sdiv 10631 = k + 1" by (simp add: w sdiv_nonneg)
  have "l - 10631 * (k + 1) + 354 = r + 355" using j by (simp add: l)
  then show "wrap64 (l - 10631 * (k + 1) + 354) = r + 355" using r by (simp add: wrap64_id)
qed

lemma leap_cycle: "(11 * (30 * k + j) + 3) div 30 = 11 * k + (11 * j + 3) div (30::int)"
proof -
  define q r where "q = (11 * j + 3) div 30" and "r = (11 * j + 3) mod 30"
  have "11 * j + 3 = 30 * q + r" by (simp add: q_def r_def)
  then have "11 * (30 * k + j) + 3 = 30 * (11 * k + q) + r" by simp
  moreover have "0 \<le> r" "r < 30" by (simp_all add: r_def)
  ultimately have "(11 * (30 * k + j) + 3) div 30 = 11 * k + q" by (rule int_div_pos_eq)
  then show ?thesis by (simp add: q_def)
qed

lemma islamicFromJDN:
  fixes jdn :: int
  assumes "1948440 \<le> jdn" and "jdn < 9223372036854775808"
  defines "l \<equiv> wrap64 (jdn - 1948440 + 10632)"
  defines "n \<equiv> wrap64 (l - 1) sdiv 10631"
  defines "l2 \<equiv> wrap64 (l - 10631 * n + 354)"
  defines "j \<equiv> hijriYear l2"
  defines "l3 \<equiv> hijriDays l2 j"
  defines "im \<equiv> wrap64 (24 * l3) sdiv 709"
  defines "id1 \<equiv> wrap64 (l3 - wrap64 (709 * im) sdiv 24)"
  shows "1 \<le> im \<and> im \<le> 12 \<and> 1 \<le> id1 \<and> id1 \<le> 30
         \<and> islamicToJDN (wrap64 (30 * n + j - 30)) im id1 = jdn"
proof -
  define k where "k = (jdn - 1948440) div 10631"
  define r where "r = (jdn - 1948440) mod 10631"
  note c = hijri_cycle [OF assms(1,2), folded k_def r_def l_def]
  have n: "n = k + 1" unfolding n_def by (rule c(1))
  have l2: "l2 = r + 355" unfolding l2_def n by (rule c(2))
  have rng: "355 \<le> l2" "l2 \<le> 10985" using c(3,4) by (simp_all add: l2)
  define f where "f = 354 * j + (11 * j + 3) div 30"
  from hijriYear_stage [OF rng, folded j_def, folded l3_def f_def]
  have y: "1 \<le> j" "j \<le> 30" "l3 = l2 - f + 29" "f + 1 \<le> l2" "l2 \<le> f + 355"
    by simp_all
  have "30 \<le> l3" "l3 \<le> 384" using y by simp_all
  from hijriMonth_stage [OF this, folded im_def, folded id1_def]
  have m: "1 \<le> im" "im \<le> 12" "1 \<le> id1" "id1 \<le> 30"
    "30 * im - (im - 1) div 2 + id1 = l3 + 1"
    by simp_all
  have e: "30 * n + j - 30 = 30 * k + j" by (simp add: n)
  have "wrap64 (30 * k + j) = 30 * k + j"
    using c(6,7) y(1,2) by (intro wrap64_id) linarith+
  then have iy: "wrap64 (30 * n + j - 30) = 30 * k + j" unfolding e .
  have "islamicToJDN (30 * k + j) im id1
        = 11 * k + (11 * j + 3) div 30 + 354 * (30 * k + j)
            + (30 * im - (im - 1) div 2 + id1) + 1948440 - 385"
    by (simp add: islamicToJDN_def leap_cycle)
  also have "\<dots> = 10631 * k + f + (l3 + 1) + 1948440 - 385"
    by (simp add: m(5) f_def)
  also have "\<dots> = 1948440 + 10631 * k + r"
    by (simp add: y(3) l2)
  also have "\<dots> = jdn" using c(5) by simp
  finally show ?thesis using m by (simp add: iy)
qed

text \<open>
  Claim C7. For every calendar-valid Gregorian date whose Julian Day Number, as
  \<^verbatim>\<open>gregorianToJDN\<close> gives it, is at least 1948440, \<^verbatim>\<open>islamicCivilFromGregorian\<close> returns
  a month from 1 to 12 and a day from 1 to 30, and the reference formula of the civil
  tabular Hijri calendar maps the returned year, month and day back to that Julian Day
  Number.
\<close>

theorem islamic_civil_round_trip:
  assumes "validDate y m d" and "1948440 \<le> gregorianToJDN y m d"
  shows "case islamicCivilFromGregorian y m d of (iy, im, id1) \<Rightarrow>
           1 \<le> im \<and> im \<le> 12 \<and> 1 \<le> id1 \<and> id1 \<le> 30
           \<and> islamicToJDN iy im id1 = gregorianToJDN y m d"
  using islamicFromJDN [OF assms(2) gregorianToJDN_range(2)]
  by (simp add: islamicCivilFromGregorian_stages Let_def)

theorem islamic_civil_round_trip_witness:
  "validDate 2025 9 9 \<and> 1948440 \<le> gregorianToJDN 2025 9 9
   \<and> islamicCivilFromGregorian 2025 9 9 = (1447, 3, 16)
   \<and> islamicToJDN 1447 3 16 = gregorianToJDN 2025 9 9"
proof -
  have v: "validDate 2025 9 9" by (simp add: validDate_def daysIn_def)
  have g: "gregorianToJDN 2025 9 9 = 2460928" by code_simp
  have h: "1948440 \<le> gregorianToJDN 2025 9 9" by (simp add: g)
  have i: "islamicCivilFromGregorian 2025 9 9 = (1447, 3, 16)" by code_simp
  from islamic_civil_round_trip [OF v h]
  have "islamicToJDN 1447 3 16 = gregorianToJDN 2025 9 9" by (simp add: i)
  with v h i show ?thesis by simp
qed

section \<open>Ordinal suffixes\<close>

lemma ordinalSuffix_values:
  "ordinalSuffix 1 = ''st''" "ordinalSuffix 2 = ''nd''" "ordinalSuffix 3 = ''rd''"
  "ordinalSuffix 4 = ''th''" "ordinalSuffix 11 = ''th''" "ordinalSuffix 12 = ''th''"
  "ordinalSuffix 13 = ''th''" "ordinalSuffix 21 = ''st''" "ordinalSuffix 22 = ''nd''"
  "ordinalSuffix 23 = ''rd''"
  by (simp_all add: ordinalSuffix_def signed_modulo_int_def)

text \<open>
  Claim C8. For every day number from 1 to 31, \<^verbatim>\<open>ordinalSuffix\<close> returns "th" when the day
  ends in 11, 12 or 13, and otherwise "st", "nd", "rd" for the last digits 1, 2, 3 and
  "th" for every other last digit; the ten values the specification lists are as stated.
\<close>

theorem ordinalSuffix_rule:
  "(1 \<le> day \<and> day \<le> 31 \<longrightarrow>
     ordinalSuffix day =
       (if day mod 100 = 11 \<or> day mod 100 = 12 \<or> day mod 100 = 13 then ''th''
        else if day mod 10 = 1 then ''st''
        else if day mod 10 = 2 then ''nd''
        else if day mod 10 = 3 then ''rd''
        else ''th''))
   \<and> ordinalSuffix 1 = ''st'' \<and> ordinalSuffix 2 = ''nd'' \<and> ordinalSuffix 3 = ''rd''
   \<and> ordinalSuffix 4 = ''th'' \<and> ordinalSuffix 11 = ''th'' \<and> ordinalSuffix 12 = ''th''
   \<and> ordinalSuffix 13 = ''th'' \<and> ordinalSuffix 21 = ''st'' \<and> ordinalSuffix 22 = ''nd''
   \<and> ordinalSuffix 23 = ''rd''"
proof -
  have "ordinalSuffix day =
       (if day mod 100 = 11 \<or> day mod 100 = 12 \<or> day mod 100 = 13 then ''th''
        else if day mod 10 = 1 then ''st''
        else if day mod 10 = 2 then ''nd''
        else if day mod 10 = 3 then ''rd''
        else ''th'')" if "1 \<le> day" "day \<le> 31"
    using that unfolding ordinalSuffix_def by (simp only: smod_nonneg) 
  then show ?thesis
    using ordinalSuffix_values by blast
qed

theorem ordinalSuffix_rule_witness:
  "(1::int) \<le> 31 \<and> (31::int) \<le> 31 \<and> ordinalSuffix 31 = ''st''"
  using ordinalSuffix_rule [of 31] by simp

section \<open>Japanese eras\<close>

lemma afterOrEqual_dateLE:
  "afterOrEqual y m d y2 m2 d2 = dateLE (y2, m2, d2) (y, m, d)"
  by (auto simp: afterOrEqual_def dateLE_def)

lemma eraScan_none:
  "\<forall>e \<in> set es. \<not> dateLE (eraStart e) (y, m, d) \<Longrightarrow> eraScan es y m d = (''Pre-Meiji'', y)"
  by (induction es) (simp_all add: afterOrEqual_dateLE eraStart_def)

lemma eraScan_first:
  assumes "sorted_wrt (\<lambda>a b. dateLE (eraStart b) (eraStart a)) es"
    and "\<exists>e \<in> set es. dateLE (eraStart e) (y, m, d)"
  shows "\<exists>e \<in> set es. eraScan es y m d = (name e, y - ey e + 1)
            \<and> dateLE (eraStart e) (y, m, d)
            \<and> (\<forall>e' \<in> set es. dateLE (eraStart e') (y, m, d)
                  \<longrightarrow> dateLE (eraStart e') (eraStart e))"
  using assms
proof (induction es)
  case Nil
  then show ?case by simp
next
  case (Cons a es)
  show ?case
  proof (cases "dateLE (eraStart a) (y, m, d)")
    case True
    have "\<forall>e' \<in> set (a # es). dateLE (eraStart e') (eraStart a)"
      using Cons.prems(1) by (auto simp: dateLE_refl)
    with True show ?thesis
      by (intro bexI [of _ a]) (simp_all add: afterOrEqual_dateLE eraStart_def)
  next
    case False
    with Cons.prems have s: "sorted_wrt (\<lambda>a b. dateLE (eraStart b) (eraStart a)) es"
      and ex: "\<exists>e \<in> set es. dateLE (eraStart e) (y, m, d)"
      by auto
    from Cons.IH [OF s ex] obtain e where e: "e \<in> set es"
      "eraScan es y m d = (name e, y - ey e + 1)" "dateLE (eraStart e) (y, m, d)"
      "\<forall>e' \<in> set es. dateLE (eraStart e') (y, m, d) \<longrightarrow> dateLE (eraStart e') (eraStart e)"
      by blast
    with False show ?thesis
      by (intro bexI [of _ e]) (auto simp: afterOrEqual_dateLE eraStart_def)
  qed
qed

lemma eras_sorted: "sorted_wrt (\<lambda>a b. dateLE (eraStart b) (eraStart a)) eras"
  by (simp add: eras_def eraStart_def dateLE_def)

lemma eras_last: "(\<exists>e \<in> set eras. dateLE (eraStart e) p) = dateLE (1868, 10, 23) p"
  by (cases p) (auto simp: eras_def eraStart_def dateLE_def)

lemma japaneseEra_values:
  "japaneseEra 1989 1 7 = (''Showa'', 64)" "japaneseEra 1989 1 8 = (''Heisei'', 1)"
  "japaneseEra 2019 4 30 = (''Heisei'', 31)" "japaneseEra 2019 5 1 = (''Reiwa'', 1)"
  by (simp_all add: japaneseEra_def eras_def afterOrEqual_def)

text \<open>
  Claim C4. For every date on or after 1868-10-23, \<^verbatim>\<open>japaneseEra\<close> returns the name of the
  entry of the era table whose start date is the greatest one not after the date (year
  first, then month, then day), with the year counted from the era's first year as 1;
  for every earlier date it returns "Pre-Meiji" and the Gregorian year unchanged. The
  four boundary dates of the specification give Showa 64, Heisei 1, Heisei 31, Reiwa 1.
\<close>

theorem japaneseEra_table:
  "(dateLE (1868, 10, 23) (y, m, d) \<longrightarrow>
      (\<exists>e \<in> set eras. japaneseEra y m d = (name e, y - ey e + 1)
          \<and> dateLE (eraStart e) (y, m, d)
          \<and> (\<forall>e' \<in> set eras. dateLE (eraStart e') (y, m, d)
                \<longrightarrow> dateLE (eraStart e') (eraStart e))))
   \<and> (\<not> dateLE (1868, 10, 23) (y, m, d) \<longrightarrow> japaneseEra y m d = (''Pre-Meiji'', y))
   \<and> japaneseEra 1989 1 7 = (''Showa'', 64) \<and> japaneseEra 1989 1 8 = (''Heisei'', 1)
   \<and> japaneseEra 2019 4 30 = (''Heisei'', 31) \<and> japaneseEra 2019 5 1 = (''Reiwa'', 1)"
proof -
  have a: "\<exists>e \<in> set eras. japaneseEra y m d = (name e, y - ey e + 1)
          \<and> dateLE (eraStart e) (y, m, d)
          \<and> (\<forall>e' \<in> set eras. dateLE (eraStart e') (y, m, d)
                \<longrightarrow> dateLE (eraStart e') (eraStart e))"
    if "dateLE (1868, 10, 23) (y, m, d)"
    unfolding japaneseEra_def
    using eraScan_first [OF eras_sorted] that eras_last by blast
  have b: "japaneseEra y m d = (''Pre-Meiji'', y)" if "\<not> dateLE (1868, 10, 23) (y, m, d)"
    unfolding japaneseEra_def
    using eraScan_none that eras_last by blast
  show ?thesis
    using a b japaneseEra_values by blast
qed

theorem japaneseEra_table_witness:
  "dateLE (1868, 10, 23) (2025, 9, 9) \<and> japaneseEra 2025 9 9 = (''Reiwa'', 7)
   \<and> \<not> dateLE (1868, 10, 23) (1868, 10, 22) \<and> japaneseEra 1868 10 22 = (''Pre-Meiji'', 1868)"
proof -
  have h1: "dateLE (1868, 10, 23) (2025, 9, 9)" by (simp add: dateLE_def)
  have h2: "\<not> dateLE (1868, 10, 23) (1868, 10, 22)" by (simp add: dateLE_def)
  from japaneseEra_table [of 2025 9 9] h1
  obtain e where e: "e \<in> set eras" "japaneseEra 2025 9 9 = (name e, 2025 - ey e + 1)"
    "dateLE (eraStart e) (2025, 9, 9)"
    "\<forall>e' \<in> set eras. dateLE (eraStart e') (2025, 9, 9) \<longrightarrow> dateLE (eraStart e') (eraStart e)"
    by blast
  have "dateLE (2019, 5, 1) (eraStart e)"
    using e(4) by (simp add: eras_def eraStart_def dateLE_def)
  with e(1) have "name e = ''Reiwa'' \<and> ey e = 2019"
    by (auto simp: eras_def eraStart_def dateLE_def)
  with e(2) have r: "japaneseEra 2025 9 9 = (''Reiwa'', 7)" by simp
  from japaneseEra_table [of 1868 10 22] h2
  have "japaneseEra 1868 10 22 = (''Pre-Meiji'', 1868)" by blast
  with h1 h2 r show ?thesis by simp
qed

lemma eraYear_in_range:
  assumes "e \<in> set eras" and "afterOrEqual y m d (ey e) (em e) (ed e)"
    and "y < 9223372036854775808"
  shows "wrap64 (y - ey e) = y - ey e" and "wrap64 (y - ey e + 1) = y - ey e + 1"
proof -
  have "1868 \<le> ey e" using assms(1) by (auto simp: eras_def)
  moreover have "ey e \<le> y" using assms(2) by (auto simp: afterOrEqual_def split: if_splits)
  ultimately show "wrap64 (y - ey e) = y - ey e" "wrap64 (y - ey e + 1) = y - ey e + 1"
    using assms(3) by (simp_all add: wrap64_id)
qed

section \<open>Rendering: styles, calendars and the time of day\<close>

text \<open>
  Claim C9. The styles iso-date, rfc3339, unix and iso-week render a time value to the
  same string under any two calendar settings; the verbose style is the one that passes
  the calendar on, to \<^verbatim>\<open>verboseCalendarSentence\<close>.
\<close>

theorem nonverbose_calendar_invariant:
  "(style \<in> set [''iso-date'', ''rfc3339'', ''unix'', ''iso-week'']
      \<longrightarrow> FormatRequestDate dateUTC style cal1 t = FormatRequestDate dateUTC style cal2 t)
   \<and> FormatRequestDate dateUTC ''gce-verbose'' cal1 t = verboseCalendarSentence cal1 t"
  by (auto simp: FormatRequestDate_def)

theorem nonverbose_calendar_invariant_witness:
  "''unix'' \<in> set [''iso-date'', ''rfc3339'', ''unix'', ''iso-week'']
   \<and> FormatRequestDate midnightUTC ''unix'' ''julian'' sampleTime
       = FormatRequestDate midnightUTC ''unix'' ''islamic'' sampleTime"
proof -
  have h: "''unix'' \<in> set [''iso-date'', ''rfc3339'', ''unix'', ''iso-week'']" by simp
  show ?thesis
    using h nonverbose_calendar_invariant
      [of "''unix''" midnightUTC "''julian''" sampleTime "''islamic''"]
    by blast
qed

text \<open>
  Claim C10. Two time values with the same year, month and day are rendered to the same
  string, under every style and calendar setting: the hour, minute, second, nanosecond
  and zone of the input do not reach the result.
\<close>

theorem FormatRequestDate_date_only:
  assumes "Year t1 = Year t2" and "Month t1 = Month t2" and "Day t1 = Day t2"
  shows "FormatRequestDate dateUTC style cal t1 = FormatRequestDate dateUTC style cal t2"
  unfolding FormatRequestDate_def verboseCalendarSentence_def FormatISODate_def
    ISOWeek_def Weekday_def assms ..

theorem FormatRequestDate_date_only_witness:
  "Year sampleTime = Year (midnightUTC 2025 9 9)
   \<and> Month sampleTime = Month (midnightUTC 2025 9 9)
   \<and> Day sampleTime = Day (midnightUTC 2025 9 9)
   \<and> Hour sampleTime \<noteq> Hour (midnightUTC 2025 9 9)
   \<and> FormatRequestDate midnightUTC ''iso-week'' ''gregorian'' sampleTime
       = FormatRequestDate midnightUTC ''iso-week'' ''gregorian'' (midnightUTC 2025 9 9)"
proof -
  have h: "Year sampleTime = Year (midnightUTC 2025 9 9)"
    "Month sampleTime = Month (midnightUTC 2025 9 9)"
    "Day sampleTime = Day (midnightUTC 2025 9 9)"
    "Hour sampleTime \<noteq> Hour (midnightUTC 2025 9 9)"
    by (simp_all add: midnightUTC_def sampleTime_def)
  show ?thesis
    using h FormatRequestDate_date_only
      [OF h(1-3), of midnightUTC "''iso-week''" "''gregorian''"]
    by blast
qed

text \<open>
  Claim C5. A style name outside the five supported ones is rendered as the verbose
  style is, a calendar name outside the seven supported ones as the Gregorian calendar
  is, and with both unsupported the result is the verbose Gregorian common-era sentence.
  The result is always a string: \<^verbatim>\<open>FormatRequestDate\<close> has no error result.
\<close>

theorem unsupported_names_fall_back:
  "(style \<notin> set supportedStyles
      \<longrightarrow> FormatRequestDate dateUTC style cal t
            = FormatRequestDate dateUTC ''gce-verbose'' cal t)
   \<and> (cal \<notin> set supportedCalendars
      \<longrightarrow> FormatRequestDate dateUTC style cal t
            = FormatRequestDate dateUTC style ''gregorian'' t)
   \<and> (style \<notin> set supportedStyles \<and> cal \<notin> set supportedCalendars
      \<longrightarrow> FormatRequestDate dateUTC style cal t =
            ''This request was made on '' @ WeekdayString (Weekday t) @ '', ''
              @ MonthString (Month t) @ '' '' @ itoa (Day t) @ ordinalSuffix (Day t)
              @ '' of the year '' @ itoa (Year t) @ '' of the common era.'')"
proof -
  have v: "verboseCalendarSentence cal t = verboseCalendarSentence ''gregorian'' t"
    if "cal \<notin> set supportedCalendars"
    using that by (simp add: verboseCalendarSentence_def supportedCalendars_def)
  have g: "verboseCalendarSentence ''gregorian'' t =
            ''This request was made on '' @ WeekdayString (Weekday t) @ '', ''
              @ MonthString (Month t) @ '' '' @ itoa (Day t) @ ordinalSuffix (Day t)
              @ '' of the year '' @ itoa (Year t) @ '' of the common era.''"
    by (simp add: verboseCalendarSentence_def Let_def)
  have s: "FormatRequestDate dateUTC style cal t = verboseCalendarSentence cal t"
    if "style \<notin> set supportedStyles"
    using that by (simp add: FormatRequestDate_def supportedStyles_def)
  have s0: "FormatRequestDate dateUTC ''gce-verbose'' cal t = verboseCalendarSentence cal t"
    by (simp add: FormatRequestDate_def)
  have c: "FormatRequestDate dateUTC style cal t
             = FormatRequestDate dateUTC style ''gregorian'' t"
    if "cal \<notin> set supportedCalendars"
    using v [OF that] by (simp add: FormatRequestDate_def)
  show ?thesis
    using v g s s0 c by simp
qed

theorem unsupported_names_fall_back_witness:
  "''long'' \<notin> set supportedStyles \<and> ''mayan'' \<notin> set supportedCalendars
   \<and> FormatRequestDate midnightUTC ''long'' ''mayan'' sampleTime =
       ''This request was made on Tuesday, September 9th of the year 2025 of the common era.''"
proof -
  have h: "''long'' \<notin> set supportedStyles" "''mayan'' \<notin> set supportedCalendars"
    by (simp_all add: supportedStyles_def supportedCalendars_def)
  have w: "WeekdayString (Weekday sampleTime) = ''Tuesday''" by code_simp
  have m: "MonthString (Month sampleTime) = ''September''" by code_simp
  have d: "itoa (Day sampleTime) = ''9''" by code_simp
  have o: "ordinalSuffix (Day sampleTime) = ''th''" by code_simp
  have y: "itoa (Year sampleTime) = ''2025''" by code_simp
  from h unsupported_names_fall_back [of "''long''" midnightUTC "''mayan''" sampleTime]
  have "FormatRequestDate midnightUTC ''long'' ''mayan'' sampleTime =
          ''This request was made on '' @ WeekdayString (Weekday sampleTime) @ '', ''
            @ MonthString (Month sampleTime) @ '' '' @ itoa (Day sampleTime)
            @ ordinalSuffix (Day sampleTime) @ '' of the year '' @ itoa (Year sampleTime)
            @ '' of the common era.''"
    by blast
  then show ?thesis
    using h by (simp add: w m d o y)
qed

section \<open>Request dates that are out of range\<close>

lemma digitChar_code:
  assumes "k < 10"
  shows "(of_char (digitChar k) :: nat) = 48 + k"
proof -
  have "k = 0 \<or> k = 1 \<or> k = 2 \<or> k = 3 \<or> k = 4 \<or> k = 5 \<or> k = 6 \<or> k = 7 \<or> k = 8 \<or> k = 9"
    using assms by arith
  then show ?thesis by (elim disjE) (simp_all add: digitChar_def)
qed












lemma isDigit_digitChar:
  assumes "i < length s" and "s ! i = digitChar k" and "k < 10"
  shows "isDigit s i"
  using assms by (simp add: isDigit_def digitChar_code)








lemma parseRequestDate_values:
  "parseRequestDate sampleErrorText ''2025-02-30'' =
     Inl \<lparr>Code = ''SERVICE_ERROR'',
          Message = ''Failed to parse request date '' @ [CHR 0x27] @ ''2025-02-30''
            @ [CHR 0x27] @ '': cannot parse'',
          VATNumber = []\<rparr>"
  "parseRequestDate sampleErrorText ''2025-02-30+02:00'' =
     Inl \<lparr>Code = ''SERVICE_ERROR'',
          Message = ''Failed to parse request date '' @ [CHR 0x27] @ ''2025-02-30+02:00''
            @ [CHR 0x27] @ '': day out of range'',
          VATNumber = []\<rparr>"
  "parseRequestDate sampleErrorText ''2025-02-29'' =
     Inl \<lparr>Code = ''SERVICE_ERROR'',
          Message = ''Failed to parse request date '' @ [CHR 0x27] @ ''2025-02-29''
            @ [CHR 0x27] @ '': cannot parse'',
          VATNumber = []\<rparr>"
  "parseRequestDate sampleErrorText ''2024-02-29'' = Inr (midnightUTC 2024 2 29)"
  "parseRequestDate sampleErrorText ''2025-09-09+02:00'' =
     Inr ((midnightUTC 2025 9 9)\<lparr>ZoneOffset := 7200\<rparr>)"
  by code_simp+



end
